theory Spec2Isabelle
  imports Main
begin

section \<open>Values returned by the wrapped function\<close>

text \<open>
  The wrapped function \<open>fn\<close> has type \<open>(...args: unknown[]) => unknown\<close>: it may return any
  JavaScript value, and throw any value. The runner looks at the returned value in two
  places: the test of lines 61 to 66 of \<open>coalesce\<close> (whether the value is \<open>null\<close>, what
  \<open>typeof\<close> gives for it, what reading its member \<open>then\<close> gives), and line 67, which reads
  and calls the member \<open>catch\<close> of the value, and reads and calls the member \<open>finally\<close> of
  what that call returns, with the closure \<open>complete\<close> as argument.

  A value is modelled with what these steps can meet. An object or a function has the
  members that a property read finds (own or inherited): a data member, or an accessor,
  whose read runs code that ends by throwing or by returning a value. A function has, in
  addition, what a call of it does: what it does with its first argument, in order (call
  it, call it inside a \<open>try\<close> that swallows what it throws, keep it to call it once more at
  a later time), and how the call ends, by throwing or by returning a value.

  The code of a member is taken not to call the runner: a returned value knows the closure
  that it is handed, not the runner. A closure that was kept is called from outside the
  runner, as the reactions of a promise are. A primitive value has none of the members read
  here (no prototype defines \<open>finally\<close>).
\<close>

datatype jstype =
  TUndefined | TObject | TBoolean | TNumber | TBigint | TString | TSymbol | TFunction

datatype action = CallArg | TryCallArg | KeepArg

datatype jsval =
    JNull
  | JUndefined
  | JBoolean bool
  | JNumber int
  | JBigint int
  | JString string
  | JSymbol string
  | JObject "(string \<times> member) list"
  | JFunction "(string \<times> member) list" routine
and member = Data jsval | Accessor ending
and routine = Routine "action list" ending
and ending = Throw jsval | Return jsval

text \<open>The \<open>typeof\<close> operator; \<open>typeof null\<close> is \<open>'object'\<close>.\<close>

fun typeof :: "jsval \<Rightarrow> jstype" where
  "typeof JNull = TObject"
| "typeof JUndefined = TUndefined"
| "typeof (JBoolean b) = TBoolean"
| "typeof (JNumber i) = TNumber"
| "typeof (JBigint i) = TBigint"
| "typeof (JString s) = TString"
| "typeof (JSymbol s) = TSymbol"
| "typeof (JObject ms) = TObject"
| "typeof (JFunction ms c) = TFunction"

text \<open>The \<open>TypeError\<close> that the host throws.\<close>

definition type_error :: jsval where
  "type_error = JObject [(''name'', Data (JString ''TypeError''))]"

text \<open>
  The property read \<open>v.name\<close>: on an object or a function, the data member, the outcome of
  the accessor, or \<open>undefined\<close> when there is no such member; on \<open>null\<close> and \<open>undefined\<close> a
  \<open>TypeError\<close>; on a primitive value \<open>undefined\<close>.
\<close>

fun lookup :: "(string \<times> member) list \<Rightarrow> string \<Rightarrow> ending" where
  "lookup ms name =
     (case map_of ms name of
        None \<Rightarrow> Return JUndefined
      | Some (Data v) \<Rightarrow> Return v
      | Some (Accessor e) \<Rightarrow> e)"

fun read :: "jsval \<Rightarrow> string \<Rightarrow> ending" where
  "read (JObject ms) name = lookup ms name"
| "read (JFunction ms c) name = lookup ms name"
| "read JNull name = Throw type_error"
| "read JUndefined name = Throw type_error"
| "read v name = Return JUndefined"

text \<open>
  Lines 61 to 66, the test that sends a returned value to line 67. \<open>&&\<close> evaluates left to
  right and stops at the first false operand, so \<open>then\<close> is read only from a non-null
  object or function. The read is inside the \<open>try\<close>: \<open>Inl e\<close> says that it threw \<open>e\<close>.
\<close>

definition then_test :: "jsval \<Rightarrow> jsval + bool" where
  "then_test result =
     (if result \<noteq> JNull \<and> (typeof result = TObject \<or> typeof result = TFunction)
      then (case read result ''then'' of
              Throw e \<Rightarrow> Inl e
            | Return t \<Rightarrow> Inr (typeof t = TFunction))
      else Inr False)"

definition is_thenable :: "jsval \<Rightarrow> bool" where
  "is_thenable result \<longleftrightarrow> then_test result = Inr True"

text \<open>
  The same notion in the words of the specification: a non-null value of object or
  callable kind exposing a callable member named \<open>then\<close>.
\<close>

fun callable :: "jsval \<Rightarrow> bool" where
  "callable (JFunction ms c) = True"
| "callable v = False"

fun yields_callable :: "member \<Rightarrow> bool" where
  "yields_callable (Data v) = callable v"
| "yields_callable (Accessor (Return v)) = callable v"
| "yields_callable (Accessor (Throw e)) = False"

fun exposes_callable :: "(string \<times> member) list \<Rightarrow> string \<Rightarrow> bool" where
  "exposes_callable [] name = False"
| "exposes_callable ((k, p) # ms) name =
     (if k = name then yields_callable p else exposes_callable ms name)"

fun spec_thenable :: "jsval \<Rightarrow> bool" where
  "spec_thenable (JObject ms) = exposes_callable ms ''then''"
| "spec_thenable (JFunction ms c) = exposes_callable ms ''then''"
| "spec_thenable v = False"

section \<open>The wrapped function\<close>

text \<open>
  \<open>fn\<close> is an opaque, possibly stateful function. What one execution of it can do to the
  runner is: call the runner again from inside its synchronous part (any number of times,
  with any arguments), and then either throw a value or return a value. A behaviour lists
  the argument lists of these inner calls, in order, and the way the synchronous part
  ends. A task gives the behaviour of each execution from the number of executions made
  before it and from the arguments it is called with.
\<close>

datatype outcome = Throws jsval | Returns jsval

datatype 'a behaviour = Behaviour (reenter: "'a list") (outcome: outcome)

type_synonym 'a task = "nat \<Rightarrow> 'a \<Rightarrow> 'a behaviour"

section \<open>The runner\<close>

text \<open>
  What can be observed of the runner from outside: \<open>Called args r p\<close> is a call
  \<open>fn(...args)\<close>, made when \<open>isRunning\<close> was \<open>r\<close> and \<open>hasPending\<close> was \<open>p\<close>;
  \<open>Completed args\<close> is one run of the closure \<open>complete\<close> of the execution that was
  started with \<open>args\<close>.
\<close>

datatype 'a obs = Called 'a bool bool | Completed 'a

text \<open>
  The state: the two variables \<open>isRunning\<close> and \<open>hasPending\<close> of lines 40 and 41; the
  closures \<open>complete\<close> that were kept at line 67 and are still to be called, each one
  given by the \<open>args\<close> it has captured; and the observations made so far.
  There is no variable holding a last argument list in the source.
\<close>

record 'a world =
  isRunning :: bool
  hasPending :: bool
  handlers :: "'a list"
  trace :: "'a obs list"

definition init :: "'a world" where
  "init = \<lparr>isRunning = False, hasPending = False, handlers = [], trace = []\<rparr>"

fun called_of :: "'a obs list \<Rightarrow> 'a list" where
  "called_of [] = []"
| "called_of (Called a r p # tr) = a # called_of tr"
| "called_of (Completed a # tr) = called_of tr"

definition called :: "'a world \<Rightarrow> 'a list" where
  "called w = called_of (trace w)"

definition executions :: "'a world \<Rightarrow> nat" where
  "executions w = length (called w)"

text \<open>What a caller of the runner gets: a normal return (of nothing) or an exception.\<close>

datatype signal = Returned | Raised jsval

type_synonym 'a result = "(signal \<times> 'a world) option"

text \<open>
  The closure \<open>complete\<close> of lines 51 to 57. Its call of \<open>run\<close> is the parameter
  \<open>rerun\<close>; \<open>args\<close> is the argument list captured from the enclosing call of \<open>run\<close>.
\<close>

definition complete :: "('a \<Rightarrow> 'a world \<Rightarrow> 'a result) \<Rightarrow> 'a \<Rightarrow> 'a world \<Rightarrow> 'a result" where
  "complete rerun args w =
     (let w1 = w\<lparr>isRunning := False, trace := trace w @ [Completed args]\<rparr> in
      if hasPending w1 then rerun args (w1\<lparr>hasPending := False\<rparr>)
      else Some (Returned, w1))"

text \<open>
  The synchronous part of one execution of \<open>fn\<close>: its inner calls of the runner, one after
  the other, then its outcome. An exception leaving an inner call leaves \<open>fn\<close> too.
\<close>

fun body :: "('a \<Rightarrow> 'a world \<Rightarrow> 'a result) \<Rightarrow> 'a list \<Rightarrow> outcome \<Rightarrow> 'a world
    \<Rightarrow> (outcome \<times> 'a world) option" where
  "body rerun [] out w = Some (out, w)"
| "body rerun (a # as) out w =
     (case rerun a w of
        None \<Rightarrow> None
      | Some (Raised e, w') \<Rightarrow> Some (Throws e, w')
      | Some (Returned, w') \<Rightarrow> body rerun as out w')"

text \<open>The call \<open>fn(...args)\<close> of line 60.\<close>

definition call_fn :: "('a \<Rightarrow> 'a world \<Rightarrow> 'a result) \<Rightarrow> 'a task \<Rightarrow> 'a \<Rightarrow> 'a world
    \<Rightarrow> (outcome \<times> 'a world) option" where
  "call_fn rerun task args w =
     (let b = task (executions w) args;
          w1 = w\<lparr>trace := trace w @ [Called args (isRunning w) (hasPending w)]\<rparr>
      in body rerun (reenter b) (outcome b) w1)"

text \<open>
  Line 67, \<open>(result as Promise<unknown>).catch(() => {}).finally(complete)\<close>, up to the
  call of \<open>finally\<close>: the member \<open>catch\<close> of the value is read and called with a function
  that does nothing (so what \<open>catch\<close> does with its argument has no effect), and the
  member \<open>finally\<close> of what that call returns is read. Calling a value that is not a
  function throws a \<open>TypeError\<close>. \<open>Inr c\<close> gives the routine of the function that is about to be
  called with \<open>complete\<close>; \<open>Inl e\<close> says that \<open>e\<close> was thrown before.
\<close>

fun call_code :: "jsval \<Rightarrow> jsval + routine" where
  "call_code (JFunction ms c) = Inr c"
| "call_code v = Inl type_error"

definition finally_of :: "jsval \<Rightarrow> jsval + routine" where
  "finally_of result =
     (case read result ''catch'' of
        Throw e \<Rightarrow> Inl e
      | Return c \<Rightarrow>
          (case call_code c of
             Inl e \<Rightarrow> Inl e
           | Inr (Routine acts (Throw e)) \<Rightarrow> Inl e
           | Inr (Routine acts (Return r)) \<Rightarrow>
               (case read r ''finally'' of
                  Throw e \<Rightarrow> Inl e
                | Return f \<Rightarrow> call_code f)))"

text \<open>
  What a function does with the closure \<open>cb\<close> it is called with, one action after the
  other. A kept closure joins the closures still to be called. What the closure throws
  leaves the function, unless the call is inside a \<open>try\<close>.
\<close>

fun run_acts :: "('a world \<Rightarrow> 'a result) \<Rightarrow> 'a \<Rightarrow> action list \<Rightarrow> 'a world \<Rightarrow> 'a result" where
  "run_acts cb args [] w = Some (Returned, w)"
| "run_acts cb args (CallArg # as) w =
     (case cb w of
        None \<Rightarrow> None
      | Some (Raised e, w') \<Rightarrow> Some (Raised e, w')
      | Some (Returned, w') \<Rightarrow> run_acts cb args as w')"
| "run_acts cb args (TryCallArg # as) w =
     (case cb w of
        None \<Rightarrow> None
      | Some (s, w') \<Rightarrow> run_acts cb args as w')"
| "run_acts cb args (KeepArg # as) w =
     run_acts cb args as (w\<lparr>handlers := handlers w @ [args]\<rparr>)"

text \<open>The whole of line 67: \<open>Returned\<close> when it comes back, \<open>Raised e\<close> when it throws \<open>e\<close>.\<close>

definition hand_over :: "('a \<Rightarrow> 'a world \<Rightarrow> 'a result) \<Rightarrow> 'a \<Rightarrow> jsval \<Rightarrow> 'a world \<Rightarrow> 'a result" where
  "hand_over rerun args result w =
     (case finally_of result of
        Inl e \<Rightarrow> Some (Raised e, w)
      | Inr (Routine acts fin) \<Rightarrow>
          (case run_acts (complete rerun args) args acts w of
             None \<Rightarrow> None
           | Some (Raised e, w') \<Rightarrow> Some (Raised e, w')
           | Some (Returned, w') \<Rightarrow>
               (case fin of Throw e \<Rightarrow> Some (Raised e, w') | Return x \<Rightarrow> Some (Returned, w'))))"

text \<open>The \<open>catch\<close> block of lines 70 to 73: \<open>complete()\<close>, then \<open>throw error\<close>.\<close>

definition catch_block :: "('a \<Rightarrow> 'a world \<Rightarrow> 'a result) \<Rightarrow> 'a \<Rightarrow> jsval \<Rightarrow> 'a world \<Rightarrow> 'a result" where
  "catch_block rerun args error w =
     (case complete rerun args w of
        None \<Rightarrow> None
      | Some (Raised error', w') \<Rightarrow> Some (Raised error', w')
      | Some (Returned, w') \<Rightarrow> Some (Raised error, w'))"

text \<open>
  The function \<open>run\<close> of lines 43 to 76. \<open>run\<close> and \<open>complete\<close> call each other, and \<open>fn\<close>
  may call \<open>run\<close>; a function that calls the runner in every execution and completes
  synchronously makes the recursion endless. The first argument bounds the depth of the
  nested calls of \<open>run\<close>; \<open>None\<close> says that the bound was reached.
\<close>

primrec run :: "nat \<Rightarrow> 'a task \<Rightarrow> 'a \<Rightarrow> 'a world \<Rightarrow> 'a result" where
  "run 0 task args w = None"
| "run (Suc n) task args w =
     (if isRunning w then Some (Returned, w\<lparr>hasPending := True\<rparr>)
      else
        (case call_fn (run n task) task args (w\<lparr>isRunning := True\<rparr>) of
           None \<Rightarrow> None
         | Some (Throws error, w') \<Rightarrow> catch_block (run n task) args error w'
         | Some (Returns result, w') \<Rightarrow>
             (case then_test result of
                Inl error \<Rightarrow> catch_block (run n task) args error w'
              | Inr True \<Rightarrow>
                  (case hand_over (run n task) args result w' of
                     None \<Rightarrow> None
                   | Some (Raised error, w'') \<Rightarrow> catch_block (run n task) args error w''
                   | Some (Returned, w'') \<Rightarrow> Some (Returned, w''))
              | Inr False \<Rightarrow> complete (run n task) args w')))"

section \<open>Later calls of a kept closure\<close>

datatype settlement = Fulfilled jsval | Rejected jsval

text \<open>
  \<open>p.catch(() => {})\<close>: the promise it returns is fulfilled with the value of \<open>p\<close> when
  \<open>p\<close> is fulfilled, and with what the handler returns (\<open>undefined\<close>) when \<open>p\<close> is rejected.
\<close>

fun catch_noop :: "settlement \<Rightarrow> settlement" where
  "catch_noop (Fulfilled v) = Fulfilled v"
| "catch_noop (Rejected e) = Fulfilled JUndefined"

text \<open>
  \<open>q.finally(complete)\<close>, when \<open>q\<close> has settled as \<open>s\<close>: \<open>complete\<close> runs; the promise that
  \<open>finally\<close> returns settles as \<open>q\<close> did, or is rejected with what \<open>complete\<close> has thrown.
  Nobody holds that last promise: its rejection is an unhandled rejection of the host.
\<close>

definition finally_complete :: "('a \<Rightarrow> 'a world \<Rightarrow> 'a result) \<Rightarrow> 'a \<Rightarrow> settlement
    \<Rightarrow> 'a world \<Rightarrow> (settlement \<times> 'a world) option" where
  "finally_complete rerun args s w =
     (case complete rerun args w of
        None \<Rightarrow> None
      | Some (Raised e, w') \<Rightarrow> Some (Rejected e, w')
      | Some (Returned, w') \<Rightarrow> Some (s, w'))"

text \<open>
  The \<open>i\<close>-th of the closures still to be called is called, the value that keeps it having
  settled as \<open>s\<close>: the closure runs, and is no longer to be called.
\<close>

definition settle :: "nat \<Rightarrow> 'a task \<Rightarrow> nat \<Rightarrow> settlement \<Rightarrow> 'a world
    \<Rightarrow> (settlement \<times> 'a world) option" where
  "settle n task i s w =
     finally_complete (run n task) (handlers w ! i) (catch_noop s)
       (w\<lparr>handlers := take i (handlers w) @ drop (Suc i) (handlers w)\<rparr>)"

section \<open>Sequences of events\<close>

text \<open>
  The runner is driven by two kinds of events on one thread: a call of the runner from
  outside \<open>fn\<close>, and the call of a kept closure when the value that keeps it has settled.
  A settlement for a closure that is not there does not happen: it changes nothing.
\<close>

datatype 'a event = Invoke 'a | Settle nat settlement

fun step :: "nat \<Rightarrow> 'a task \<Rightarrow> 'a event \<Rightarrow> 'a world \<Rightarrow> 'a world option" where
  "step n task (Invoke a) w = map_option snd (run n task a w)"
| "step n task (Settle i s) w =
     (if i < length (handlers w) then map_option snd (settle n task i s w) else Some w)"

fun drive :: "nat \<Rightarrow> 'a task \<Rightarrow> 'a event list \<Rightarrow> 'a world \<Rightarrow> 'a world option" where
  "drive n task [] w = Some w"
| "drive n task (ev # evs) w =
     (case step n task ev w of None \<Rightarrow> None | Some w' \<Rightarrow> drive n task evs w')"

section \<open>Concrete values, tasks and states\<close>

text \<open>
  A native promise, as a value. Its \<open>finally\<close> keeps the closure it is given and returns;
  its \<open>catch\<close> returns a promise, of which \<open>finally\<close> is then called.
\<close>

definition a_function :: jsval where
  "a_function = JFunction [] (Routine [] (Return JUndefined))"

definition keeping :: jsval where
  "keeping = JFunction [] (Routine [KeepArg] (Return JUndefined))"

definition chained_promise :: jsval where
  "chained_promise = JObject [(''then'', Data a_function), (''finally'', Data keeping)]"

definition a_promise :: jsval where
  "a_promise =
     JObject [(''then'', Data a_function),
              (''catch'', Data (JFunction [] (Routine [] (Return chained_promise)))),
              (''finally'', Data keeping)]"

text \<open>
  The tasks of the test file: an \<open>async\<close> function (every execution returns a promise), a
  function that returns nothing, and a function that throws.
\<close>

definition async_task :: "nat list task" where
  "async_task k args = Behaviour [] (Returns a_promise)"

definition plain_task :: "nat list task" where
  "plain_task k args = Behaviour [] (Returns JUndefined)"

definition throwing_task :: "nat list task" where
  "throwing_task k args = Behaviour [] (Throws (JString ''boom''))"

text \<open>The runner while the first execution of \<open>async_task\<close>, started with \<open>[1]\<close>, is in flight.\<close>

definition in_flight :: "nat list world" where
  "in_flight = \<lparr>isRunning = True, hasPending = False, handlers = [[1]],
                 trace = [Called [1] True False]\<rparr>"

text \<open>
  Two tasks that call the runner from inside their first execution and then throw. The
  second execution of the first one throws another error; the second execution of the
  second one returns a promise.
\<close>

definition rethrowing_task :: "nat list task" where
  "rethrowing_task k args =
     (if k = 0 then Behaviour [[9]] (Throws (JString ''first''))
      else Behaviour [] (Throws (JString ''second'')))"

definition throw_then_async_task :: "nat list task" where
  "throw_then_async_task k args =
     (if k = 0 then Behaviour [[9]] (Throws (JString ''boom''))
      else Behaviour [] (Returns a_promise))"

text \<open>
  Thenables that are not promises. \<open>{then() {}}\<close> has a callable member \<open>then\<close> and nothing
  else. The second one has a \<open>finally\<close> that calls the closure at once:
  \<open>{then() {}, catch() { return this }, finally(cb) { cb() }}\<close>. The third one throws when
  \<open>then\<close> is read.
\<close>

definition bare_thenable :: jsval where
  "bare_thenable = JObject [(''then'', Data a_function)]"

definition eager_thenable :: jsval where
  "eager_thenable =
     JObject [(''then'', Data a_function),
              (''catch'', Data (JFunction [] (Routine [] (Return
                 (JObject [(''finally'', Data (JFunction [] (Routine [CallArg] (Return JUndefined))))]))))),
              (''finally'', Data (JFunction [] (Routine [CallArg] (Return JUndefined))))]"

definition guarded_thenable :: jsval where
  "guarded_thenable = JObject [(''then'', Accessor (Throw (JString ''no'')))]"

definition bare_thenable_task :: "nat list task" where
  "bare_thenable_task k args = Behaviour [] (Returns bare_thenable)"


text \<open>A task whose first execution calls the runner from inside and returns nothing.\<close>

definition reentering_task :: "nat list task" where
  "reentering_task k args =
     (if k = 0 then Behaviour [[9]] (Returns JUndefined)
      else Behaviour [] (Returns JUndefined))"

section \<open>Notions used to state the properties\<close>

text \<open>
  Line 67 defers the completion of an execution when it is reached and comes back without
  the closure having been called: the value passes the test, \<open>catch\<close> and \<open>finally\<close> come
  back, and \<open>finally\<close> does no more with the closure than keep it (\<open>keeps\<close> times).
\<close>

definition defers :: "jsval \<Rightarrow> bool" where
  "defers v \<longleftrightarrow>
     is_thenable v \<and>
     (case finally_of v of
        Inr (Routine acts (Return x)) \<Rightarrow> CallArg \<notin> set acts \<and> TryCallArg \<notin> set acts
      | Inr (Routine acts (Throw e)) \<Rightarrow> False
      | Inl e \<Rightarrow> False)"

definition keeps :: "jsval \<Rightarrow> nat" where
  "keeps v =
     (case finally_of v of
        Inr (Routine acts fin) \<Rightarrow> length (filter (\<lambda>x. x = KeepArg) acts)
      | Inl e \<Rightarrow> 0)"

text \<open>From the execution number \<open>K\<close> on, no execution calls the runner from inside.\<close>

definition quiet_from :: "'a task \<Rightarrow> nat \<Rightarrow> bool" where
  "quiet_from task K \<longleftrightarrow> (\<forall>k b. K \<le> k \<longrightarrow> reenter (task k b) = [])"



text \<open>
  The moves of the runner on its state, each one with the arguments \<open>a\<close> of the call or
  of the closure that makes it: a call that finds an execution running sets the flag; a
  call that finds none sets \<open>isRunning\<close> and calls \<open>fn\<close>; line 67 keeps a closure; the
  completion step resets \<open>isRunning\<close>, and clears \<open>hasPending\<close> when it was set.
  \<open>evolves a w w'\<close>: such moves lead from \<open>w\<close> to \<open>w'\<close>.
\<close>

inductive move :: "'a \<Rightarrow> 'a world \<Rightarrow> 'a world \<Rightarrow> bool" where
  flag: "isRunning w \<Longrightarrow> move a w (w\<lparr>hasPending := True\<rparr>)"
| call: "\<not> isRunning w \<Longrightarrow>
         move a w (w\<lparr>isRunning := True, trace := trace w @ [Called a True (hasPending w)]\<rparr>)"
| keep: "move a w (w\<lparr>handlers := handlers w @ [a]\<rparr>)"
| rest: "\<not> hasPending w \<Longrightarrow>
         move a w (w\<lparr>isRunning := False, trace := trace w @ [Completed a]\<rparr>)"
| again: "hasPending w \<Longrightarrow>
         move a w (w\<lparr>isRunning := False, hasPending := False, trace := trace w @ [Completed a]\<rparr>)"

inductive evolves :: "'a \<Rightarrow> 'a world \<Rightarrow> 'a world \<Rightarrow> bool" where
  stay: "evolves a w w"
| more: "evolves a w w1 \<Longrightarrow> move a w1 w2 \<Longrightarrow> evolves a w w2"

text \<open>
  What holds of the runner whenever control is outside of it: a pending request only
  during an execution, and every call of \<open>fn\<close> made with \<open>isRunning\<close> true and
  \<open>hasPending\<close> false.
\<close>

fun good_obs :: "'a obs \<Rightarrow> bool" where
  "good_obs (Called a r p) = (r \<and> \<not> p)"
| "good_obs (Completed a) = True"

definition consistent :: "'a world \<Rightarrow> bool" where
  "consistent w \<longleftrightarrow> (hasPending w \<longrightarrow> isRunning w) \<and> list_all good_obs (trace w)"

text \<open>
  The two phases of a batch of calls that begins with a call with \<open>a\<close> at the state \<open>w\<close>:
  either the first execution is in flight with a request pending (nothing but the call of
  \<open>fn\<close> was observed), or a completion step of it has run, \<open>fn\<close> was called a second
  time, and nothing is pending. The closures still to be called have captured \<open>a\<close>.
\<close>

definition flight :: "'a world \<Rightarrow> 'a \<Rightarrow> 'a world \<Rightarrow> bool" where
  "flight w a x \<longleftrightarrow>
     set (handlers x) \<subseteq> {a} \<and>
     (isRunning x \<and> hasPending x \<and> trace x = trace w @ [Called a True False]
      \<or> \<not> hasPending x \<and> called x = called w @ [a, a] \<and>
        Completed a \<in> set (drop (length (trace w)) (trace x)))"

section \<open>Basic facts\<close>

lemma upd_order [simp]:
  "(w\<lparr>hasPending := p\<rparr>)\<lparr>isRunning := r\<rparr> = w\<lparr>isRunning := r, hasPending := p\<rparr>"
  "(w\<lparr>handlers := hs\<rparr>)\<lparr>isRunning := r\<rparr> = w\<lparr>isRunning := r, handlers := hs\<rparr>"
  "(w\<lparr>trace := t\<rparr>)\<lparr>isRunning := r\<rparr> = w\<lparr>isRunning := r, trace := t\<rparr>"
  "(w\<lparr>handlers := hs\<rparr>)\<lparr>hasPending := p\<rparr> = w\<lparr>hasPending := p, handlers := hs\<rparr>"
  "(w\<lparr>trace := t\<rparr>)\<lparr>hasPending := p\<rparr> = w\<lparr>hasPending := p, trace := t\<rparr>"
  "(w\<lparr>trace := t\<rparr>)\<lparr>handlers := hs\<rparr> = w\<lparr>handlers := hs, trace := t\<rparr>"
  by simp_all

lemma called_of_append [simp]: "called_of (xs @ ys) = called_of xs @ called_of ys"
  by (induction xs rule: called_of.induct) simp_all

lemma executions_simps [simp]:
  "executions (w\<lparr>isRunning := r\<rparr>) = executions w"
  "executions (w\<lparr>hasPending := p\<rparr>) = executions w"
  "executions (w\<lparr>handlers := hs\<rparr>) = executions w"
  by (simp_all add: executions_def called_def)

lemma executions_trace [simp]:
  "executions (w\<lparr>trace := tr\<rparr>) = length (called_of tr)"
  by (simp add: executions_def called_def)

lemma called_trace [simp]:
  "called (w\<lparr>trace := tr\<rparr>) = called_of tr"
  by (simp add: called_def)

lemma called_simps [simp]:
  "called (w\<lparr>isRunning := r\<rparr>) = called w"
  "called (w\<lparr>hasPending := p\<rparr>) = called w"
  "called (w\<lparr>handlers := hs\<rparr>) = called w"
  by (simp_all add: called_def)

lemma run_running: "isRunning w \<Longrightarrow> run (Suc n) task a w = Some (Returned, w\<lparr>hasPending := True\<rparr>)"
  by simp

lemma body_running:
  "isRunning w \<Longrightarrow> body (run (Suc n) task) as out w =
     Some (out, if as = [] then w else w\<lparr>hasPending := True\<rparr>)"
  by (induction as arbitrary: w) simp_all

lemma body_no_fuel: "body (run 0 task) as out w = (if as = [] then Some (out, w) else None)"
  by (cases as) simp_all

text \<open>The test of lines 61 to 66 passes exactly for the thenables of the specification.\<close>

lemma lookup_callable:
  "(case lookup ms name of Throw e \<Rightarrow> False | Return t \<Rightarrow> typeof t = TFunction)
     = exposes_callable ms name"
proof (induction ms)
  case Nil
  show ?case by simp
next
  case (Cons p ms)
  obtain k m where p: "p = (k, m)" by (cases p)
  show ?case
  proof (cases "k = name")
    case False
    with Cons p show ?thesis by simp
  next
    case True
    show ?thesis
    proof (cases m)
      case (Data v)
      with True p show ?thesis by (cases v) simp_all
    next
      case (Accessor e)
      show ?thesis
      proof (cases e)
        case (Throw x)
        with True p Accessor show ?thesis by simp
      next
        case (Return v)
        with True p Accessor show ?thesis by (cases v) simp_all
      qed
    qed
  qed
qed

lemma thenable_refines: "is_thenable v = spec_thenable v"
proof -
  have "(case lookup ms name of Throw e \<Rightarrow> Inl e | Return t \<Rightarrow> Inr (typeof t = TFunction)) = Inr True
      \<longleftrightarrow> exposes_callable ms name" for ms name
    using lookup_callable[of ms name] by (cases "lookup ms name") auto
  then show ?thesis
    by (cases v) (simp_all add: is_thenable_def then_test_def del: lookup.simps)
qed

lemma then_test_cases:
  obtains (threw) e where "then_test v = Inl e" "\<not> is_thenable v"
  | (passed) "then_test v = Inr True" "is_thenable v"
  | (failed) "then_test v = Inr False" "\<not> is_thenable v"
proof (cases "then_test v")
  case (Inl e)
  then show ?thesis by (intro threw[of e]) (simp_all add: is_thenable_def)
next
  case (Inr b)
  then show ?thesis by (cases b) (auto simp: is_thenable_def intro: passed failed)
qed

text \<open>A call that finds no execution running, with the inner calls of \<open>fn\<close> carried out.\<close>

lemma run_idle:
  assumes "\<not> isRunning w"
  shows "run (Suc n) task a w =
    (let b = task (executions w) a;
         w1 = w\<lparr>isRunning := True, hasPending := (hasPending w \<or> reenter b \<noteq> []),
                trace := trace w @ [Called a True (hasPending w)]\<rparr>
     in if reenter b \<noteq> [] \<and> n = 0 then None
        else (case outcome b of
                Throws e \<Rightarrow> catch_block (run n task) a e w1
              | Returns v \<Rightarrow>
                  (case then_test v of
                     Inl e \<Rightarrow> catch_block (run n task) a e w1
                   | Inr True \<Rightarrow>
                       (case hand_over (run n task) a v w1 of
                          None \<Rightarrow> None
                        | Some (Raised e, w2) \<Rightarrow> catch_block (run n task) a e w2
                        | Some (Returned, w2) \<Rightarrow> Some (Returned, w2))
                   | Inr False \<Rightarrow> complete (run n task) a w1)))"
proof -
  define b where "b = task (executions w) a"
  define w1 where "w1 = w\<lparr>isRunning := True, hasPending := (hasPending w \<or> reenter b \<noteq> []),
                trace := trace w @ [Called a True (hasPending w)]\<rparr>"
  have same: "w\<lparr>isRunning := True, hasPending := hasPending w, trace := t\<rparr>
      = w\<lparr>isRunning := True, trace := t\<rparr>" for t
    by simp
  have fn: "call_fn (run n task) task a (w\<lparr>isRunning := True\<rparr>) =
      (if reenter b \<noteq> [] \<and> n = 0 then None else Some (outcome b, w1))"
  proof (cases n)
    case 0
    then show ?thesis by (auto simp: call_fn_def body_no_fuel Let_def same w1_def b_def)
  next
    case (Suc m)
    then show ?thesis by (auto simp: call_fn_def body_running Let_def same w1_def b_def)
  qed
  from assms have "run (Suc n) task a w =
     (if reenter b \<noteq> [] \<and> n = 0 then None
        else (case outcome b of
                Throws e \<Rightarrow> catch_block (run n task) a e w1
              | Returns v \<Rightarrow>
                  (case then_test v of
                     Inl e \<Rightarrow> catch_block (run n task) a e w1
                   | Inr True \<Rightarrow>
                       (case hand_over (run n task) a v w1 of
                          None \<Rightarrow> None
                        | Some (Raised e, w2) \<Rightarrow> catch_block (run n task) a e w2
                        | Some (Returned, w2) \<Rightarrow> Some (Returned, w2))
                   | Inr False \<Rightarrow> complete (run n task) a w1)))"
    by (cases "outcome b") (simp_all add: fn)
  then show ?thesis unfolding Let_def w1_def b_def .
qed

lemma run_idle_eq:
  assumes "\<not> isRunning w" and "b = task (executions w) a"
    and "w1 = w\<lparr>isRunning := True, hasPending := (hasPending w \<or> reenter b \<noteq> []),
                trace := trace w @ [Called a True (hasPending w)]\<rparr>"
  shows "run (Suc n) task a w =
     (if reenter b \<noteq> [] \<and> n = 0 then None
        else (case outcome b of
                Throws e \<Rightarrow> catch_block (run n task) a e w1
              | Returns v \<Rightarrow>
                  (case then_test v of
                     Inl e \<Rightarrow> catch_block (run n task) a e w1
                   | Inr True \<Rightarrow>
                       (case hand_over (run n task) a v w1 of
                          None \<Rightarrow> None
                        | Some (Raised e, w2) \<Rightarrow> catch_block (run n task) a e w2
                        | Some (Returned, w2) \<Rightarrow> Some (Returned, w2))
                   | Inr False \<Rightarrow> complete (run n task) a w1)))"
  using run_idle[OF assms(1), of n task a] unfolding Let_def assms(2,3) .

declare run.simps(2) [simp del]

lemma complete_quiet:
  "\<not> hasPending w \<Longrightarrow>
   complete rerun a w = Some (Returned, w\<lparr>isRunning := False, trace := trace w @ [Completed a]\<rparr>)"
  by (simp add: complete_def)

lemma complete_pending:
  "hasPending w \<Longrightarrow>
   complete rerun a w =
     rerun a (w\<lparr>isRunning := False, hasPending := False, trace := trace w @ [Completed a]\<rparr>)"
  by (simp add: complete_def)

lemma complete_cases:
  assumes "complete rerun a w = Some (s, w')"
  shows "(hasPending w \<and>
            rerun a (w\<lparr>isRunning := False, hasPending := False,
                        trace := trace w @ [Completed a]\<rparr>) = Some (s, w'))
       \<or> (\<not> hasPending w \<and> s = Returned \<and>
            w' = w\<lparr>isRunning := False, trace := trace w @ [Completed a]\<rparr>)"
  using assms by (auto simp: complete_def Let_def split: if_splits)

lemma catch_block_cases:
  assumes "catch_block rerun a e w = Some (s, w')"
  obtains s0 where "complete rerun a w = Some (s0, w')"
    and "s = (case s0 of Returned \<Rightarrow> Raised e | Raised e' \<Rightarrow> Raised e')"
  using assms by (auto simp: catch_block_def split: option.splits signal.splits)

lemma catch_block_quiet:
  "\<not> hasPending w \<Longrightarrow>
   catch_block rerun a e w =
     Some (Raised e, w\<lparr>isRunning := False, trace := trace w @ [Completed a]\<rparr>)"
  by (simp add: catch_block_def complete_quiet)

text \<open>The ways in which a call that finds no execution running comes back.\<close>

lemma run_idle_cases:
  assumes "\<not> isRunning w" and "run (Suc n) task a w = Some (s, w')"
  obtains
    (ended) e s0 where
      "outcome (task (executions w) a) = Throws e \<or>
       (\<exists>v. outcome (task (executions w) a) = Returns v \<and> then_test v = Inl e)"
      "complete (run n task) a
         (w\<lparr>isRunning := True, hasPending := (hasPending w \<or> reenter (task (executions w) a) \<noteq> []),
            trace := trace w @ [Called a True (hasPending w)]\<rparr>) = Some (s0, w')"
      "s = (case s0 of Returned \<Rightarrow> Raised e | Raised e' \<Rightarrow> Raised e')"
  | (plain) v where "outcome (task (executions w) a) = Returns v" "then_test v = Inr False"
      "complete (run n task) a
         (w\<lparr>isRunning := True, hasPending := (hasPending w \<or> reenter (task (executions w) a) \<noteq> []),
            trace := trace w @ [Called a True (hasPending w)]\<rparr>) = Some (s, w')"
  | (handed) v where "outcome (task (executions w) a) = Returns v" "then_test v = Inr True"
      "hand_over (run n task) a v
         (w\<lparr>isRunning := True, hasPending := (hasPending w \<or> reenter (task (executions w) a) \<noteq> []),
            trace := trace w @ [Called a True (hasPending w)]\<rparr>) = Some (Returned, w')"
      "s = Returned"
  | (refused) v e w2 s0 where "outcome (task (executions w) a) = Returns v"
      "then_test v = Inr True"
      "hand_over (run n task) a v
         (w\<lparr>isRunning := True, hasPending := (hasPending w \<or> reenter (task (executions w) a) \<noteq> []),
            trace := trace w @ [Called a True (hasPending w)]\<rparr>) = Some (Raised e, w2)"
      "complete (run n task) a w2 = Some (s0, w')"
      "s = (case s0 of Returned \<Rightarrow> Raised e | Raised e' \<Rightarrow> Raised e')"
proof -
  define b where "b = task (executions w) a"
  define w1 where "w1 = w\<lparr>isRunning := True, hasPending := (hasPending w \<or> reenter b \<noteq> []),
                trace := trace w @ [Called a True (hasPending w)]\<rparr>"
  note eq = run_idle_eq[where task = task and a = a and n = n, OF assms(1) b_def w1_def]
  from assms(2) have fuel: "\<not> (reenter b \<noteq> [] \<and> n = 0)"
    unfolding eq by (auto split: if_splits)
  show ?thesis
  proof (cases "outcome b")
    case (Throws e)
    with assms(2) fuel have "catch_block (run n task) a e w1 = Some (s, w')"
      unfolding eq by simp
    then obtain s0 where "complete (run n task) a w1 = Some (s0, w')"
      and "s = (case s0 of Returned \<Rightarrow> Raised e | Raised e' \<Rightarrow> Raised e')"
      by (rule catch_block_cases)
    with Throws show ?thesis unfolding b_def w1_def by (intro ended[of e s0]) simp_all
  next
    case (Returns v)
    show ?thesis
    proof (cases "then_test v")
      case (Inl e)
      with assms(2) fuel Returns have "catch_block (run n task) a e w1 = Some (s, w')"
        unfolding eq by simp
      then obtain s0 where "complete (run n task) a w1 = Some (s0, w')"
        and "s = (case s0 of Returned \<Rightarrow> Raised e | Raised e' \<Rightarrow> Raised e')"
        by (rule catch_block_cases)
      with Returns Inl show ?thesis unfolding b_def w1_def by (intro ended[of e s0]) simp_all
    next
      case (Inr t)
      show ?thesis
      proof (cases t)
        case False
        with assms(2) fuel Returns Inr have "complete (run n task) a w1 = Some (s, w')"
          unfolding eq by simp
        with Returns Inr False show ?thesis unfolding b_def w1_def by (intro plain[of v]) simp_all
      next
        case True
        with assms(2) fuel Returns Inr have r:
          "(case hand_over (run n task) a v w1 of
              None \<Rightarrow> None
            | Some (Raised e, w2) \<Rightarrow> catch_block (run n task) a e w2
            | Some (Returned, w2) \<Rightarrow> Some (Returned, w2)) = Some (s, w')"
          unfolding eq by simp
        then obtain s1 w2 where h: "hand_over (run n task) a v w1 = Some (s1, w2)"
          by (auto split: option.splits)
        show ?thesis
        proof (cases s1)
          case Returned
          with r h Returns Inr True show ?thesis
            unfolding b_def w1_def by (intro handed[of v]) simp_all
        next
          case (Raised e)
          with r h have "catch_block (run n task) a e w2 = Some (s, w')" by simp
          then obtain s0 where "complete (run n task) a w2 = Some (s0, w')"
            and "s = (case s0 of Returned \<Rightarrow> Raised e | Raised e' \<Rightarrow> Raised e')"
            by (rule catch_block_cases)
          with h Raised Returns Inr True show ?thesis
            unfolding b_def w1_def by (intro refused[of v e w2 s0]) simp_all
        qed
      qed
    qed
  qed
qed

section \<open>What a call does to the state\<close>

lemma evolves_trans: "evolves a w1 w2 \<Longrightarrow> evolves a w w1 \<Longrightarrow> evolves a w w2"
  by (induction rule: evolves.induct) (auto intro: evolves.intros)

lemma move_evolves: "move a w w' \<Longrightarrow> evolves a w w'"
  by (rule evolves.more[OF evolves.stay])

lemma evolves_trace: "evolves a w w' \<Longrightarrow> \<exists>rest. trace w' = trace w @ rest"
proof (induction rule: evolves.induct)
  case (stay a w)
  show ?case by simp
next
  case (more a w w1 w2)
  from more.hyps(2) have "\<exists>rest. trace w2 = trace w1 @ rest"
    by (cases rule: move.cases) simp_all
  with more.IH show ?case by auto
qed

lemma evolves_called: "evolves a w w' \<Longrightarrow> \<exists>k. called w' = called w @ replicate k a"
proof (induction rule: evolves.induct)
  case (stay a w)
  show ?case by simp
next
  case (more a w w1 w2)
  from more.IH obtain k where k: "called w1 = called w @ replicate k a" by blast
  from more.hyps(2) have "called w2 = called w1 \<or> called w2 = called w1 @ [a]"
    by (cases rule: move.cases) (simp_all add: called_def)
  then show ?case
  proof
    assume "called w2 = called w1"
    with k show ?thesis by auto
  next
    assume "called w2 = called w1 @ [a]"
    with k have "called w2 = called w @ replicate (Suc k) a"
      by (simp add: replicate_append_same)
    then show ?thesis by blast
  qed
qed

lemma evolves_handlers: "evolves a w w' \<Longrightarrow> \<exists>j. handlers w' = handlers w @ replicate j a"
proof (induction rule: evolves.induct)
  case (stay a w)
  show ?case by simp
next
  case (more a w w1 w2)
  from more.IH obtain j where j: "handlers w1 = handlers w @ replicate j a" by blast
  from more.hyps(2) have "handlers w2 = handlers w1 \<or> handlers w2 = handlers w1 @ [a]"
    by (cases rule: move.cases) simp_all
  then show ?case
  proof
    assume "handlers w2 = handlers w1"
    with j show ?thesis by auto
  next
    assume "handlers w2 = handlers w1 @ [a]"
    with j have "handlers w2 = handlers w @ replicate (Suc j) a"
      by (simp add: replicate_append_same)
    then show ?thesis by blast
  qed
qed

lemma evolves_executions: "evolves a w w' \<Longrightarrow> executions w \<le> executions w'"
  using evolves_called[of a w w'] by (auto simp: executions_def)

lemma move_consistent: "move a w w' \<Longrightarrow> consistent w \<Longrightarrow> consistent w'"
  by (cases rule: move.cases) (auto simp: consistent_def)

lemma evolves_consistent: "evolves a w w' \<Longrightarrow> consistent w \<Longrightarrow> consistent w'"
  by (induction rule: evolves.induct) (auto intro: move_consistent)

lemma move_pending: "move a w w' \<Longrightarrow> hasPending w \<longrightarrow> isRunning w \<Longrightarrow> hasPending w' \<longrightarrow> isRunning w'"
  by (cases rule: move.cases) auto

lemma evolves_pending:
  "evolves a w w' \<Longrightarrow> hasPending w \<longrightarrow> isRunning w \<Longrightarrow> hasPending w' \<longrightarrow> isRunning w'"
  by (induction rule: evolves.induct) (auto dest: move_pending)

text \<open>The pieces of a call are made of such moves.\<close>

lemma complete_evolves:
  assumes "complete rerun a w = Some (s, w')"
    and r: "\<forall>w0 s0 w1. rerun a w0 = Some (s0, w1) \<longrightarrow> evolves a w0 w1"
  shows "evolves a w w'"
  using complete_cases[OF assms(1)]
proof (elim disjE conjE)
  assume p: "hasPending w"
    and "rerun a (w\<lparr>isRunning := False, hasPending := False,
           trace := trace w @ [Completed a]\<rparr>) = Some (s, w')"
  with r have "evolves a (w\<lparr>isRunning := False, hasPending := False,
           trace := trace w @ [Completed a]\<rparr>) w'" by blast
  moreover from p have "evolves a w (w\<lparr>isRunning := False, hasPending := False,
           trace := trace w @ [Completed a]\<rparr>)"
    by (intro move_evolves move.again)
  ultimately show ?thesis by (rule evolves_trans)
next
  assume "\<not> hasPending w" and "w' = w\<lparr>isRunning := False, trace := trace w @ [Completed a]\<rparr>"
  then show ?thesis by (auto intro: move_evolves move.rest)
qed

lemma run_acts_evolves:
  assumes "run_acts cb a acts w = Some (s, w')"
    and c: "\<forall>w0 s0 w1. cb w0 = Some (s0, w1) \<longrightarrow> evolves a w0 w1"
  shows "evolves a w w'"
  using assms(1)
proof (induction acts arbitrary: w)
  case Nil
  then show ?case by (auto intro: evolves.stay)
next
  case (Cons act acts)
  show ?case
  proof (cases act)
    case CallArg
    with Cons.prems obtain s1 w1 where cb: "cb w = Some (s1, w1)"
      by (auto split: option.splits)
    with c have e1: "evolves a w w1" by blast
    show ?thesis
    proof (cases s1)
      case Returned
      with Cons.prems CallArg cb have "run_acts cb a acts w1 = Some (s, w')" by simp
      from Cons.IH[OF this] e1 show ?thesis by (rule evolves_trans)
    next
      case (Raised e)
      with Cons.prems CallArg cb e1 show ?thesis by simp
    qed
  next
    case TryCallArg
    with Cons.prems obtain s1 w1 where cb: "cb w = Some (s1, w1)"
      by (auto split: option.splits)
    with c have e1: "evolves a w w1" by blast
    from Cons.prems TryCallArg cb have "run_acts cb a acts w1 = Some (s, w')" by simp
    from Cons.IH[OF this] e1 show ?thesis by (rule evolves_trans)
  next
    case KeepArg
    with Cons.prems have "run_acts cb a acts (w\<lparr>handlers := handlers w @ [a]\<rparr>) = Some (s, w')"
      by simp
    from Cons.IH[OF this] move_evolves[OF move.keep[of a w]] show ?thesis
      by (rule evolves_trans)
  qed
qed

lemma hand_over_cases:
  assumes "hand_over rerun a v w = Some (s, w')"
  obtains (early) e where "finally_of v = Inl e" "s = Raised e" "w' = w"
  | (called) acts fin s1 where "finally_of v = Inr (Routine acts fin)"
      "run_acts (complete rerun a) a acts w = Some (s1, w')"
      "s = (case s1 of Raised e \<Rightarrow> Raised e
            | Returned \<Rightarrow> (case fin of Throw e \<Rightarrow> Raised e | Return x \<Rightarrow> Returned))"
proof (cases "finally_of v")
  case (Inl e)
  with assms show ?thesis by (intro early[of e]) (simp_all add: hand_over_def)
next
  case (Inr c)
  obtain acts fin where c: "c = Routine acts fin" by (cases c)
  from assms Inr c obtain s1 where "run_acts (complete rerun a) a acts w = Some (s1, w')"
    and "s = (case s1 of Raised e \<Rightarrow> Raised e
            | Returned \<Rightarrow> (case fin of Throw e \<Rightarrow> Raised e | Return x \<Rightarrow> Returned))"
    by (auto simp: hand_over_def split: option.splits signal.splits ending.splits)
  with Inr c show ?thesis by (intro called[of acts fin s1]) simp_all
qed

lemma hand_over_evolves:
  assumes "hand_over rerun a v w = Some (s, w')"
    and r: "\<forall>w0 s0 w1. rerun a w0 = Some (s0, w1) \<longrightarrow> evolves a w0 w1"
  shows "evolves a w w'"
  using assms(1)
proof (cases rule: hand_over_cases)
  case (early e)
  then show ?thesis by (simp add: evolves.stay)
next
  case (called acts fin s1)
  from called(2) show ?thesis
  proof (rule run_acts_evolves)
    show "\<forall>w0 s0 w1. complete rerun a w0 = Some (s0, w1) \<longrightarrow> evolves a w0 w1"
      using r by (auto intro: complete_evolves)
  qed
qed

text \<open>
  A call that finds no execution running: after the call of \<open>fn\<close> and its inner calls,
  the rest of the call is made of such moves.
\<close>

lemma run_evolves_aux:
  "(\<forall>a w s w'. run n task a w = Some (s, w') \<longrightarrow> evolves a w w') \<and>
   (\<forall>a w s w'. \<not> isRunning w \<longrightarrow> run n task a w = Some (s, w') \<longrightarrow>
      evolves a (w\<lparr>isRunning := True,
                   hasPending := (hasPending w \<or> reenter (task (executions w) a) \<noteq> []),
                   trace := trace w @ [Called a True (hasPending w)]\<rparr>) w')"
proof (induction n)
  case 0
  show ?case by simp
next
  case (Suc n)
  then have IH: "\<forall>w0 s0 w1. run n task a w0 = Some (s0, w1) \<longrightarrow> evolves a w0 w1" for a
    by blast
  have cm: "evolves a w0 w1" if "complete (run n task) a w0 = Some (s0, w1)" for a w0 s0 w1
    using that IH by (rule complete_evolves)
  have idle: "evolves a (w\<lparr>isRunning := True,
                   hasPending := (hasPending w \<or> reenter (task (executions w) a) \<noteq> []),
                   trace := trace w @ [Called a True (hasPending w)]\<rparr>) w'"
    if i: "\<not> isRunning w" and r: "run (Suc n) task a w = Some (s, w')" for a w s w'
    using i r
  proof (cases rule: run_idle_cases)
    case (ended e s0)
    from cm[OF ended(2)] show ?thesis .
  next
    case (plain v)
    from cm[OF plain(3)] show ?thesis .
  next
    case (handed v)
    from hand_over_evolves[OF handed(3) IH] show ?thesis .
  next
    case (refused v e w2 s0)
    from cm[OF refused(4)] hand_over_evolves[OF refused(3) IH] show ?thesis
      by (rule evolves_trans)
  qed
  have any: "evolves a w w'" if r: "run (Suc n) task a w = Some (s, w')" for a w s w'
  proof (cases "isRunning w")
    case True
    with r have "w' = w\<lparr>hasPending := True\<rparr>" by (simp add: run_running)
    with True show ?thesis by (auto intro: move_evolves move.flag)
  next
    case False
    let ?w0 = "w\<lparr>isRunning := True, trace := trace w @ [Called a True (hasPending w)]\<rparr>"
    let ?w1 = "w\<lparr>isRunning := True,
                   hasPending := (hasPending w \<or> reenter (task (executions w) a) \<noteq> []),
                   trace := trace w @ [Called a True (hasPending w)]\<rparr>"
    from False have e0: "evolves a w ?w0" by (intro move_evolves move.call)
    have "evolves a ?w0 ?w1"
    proof (cases "reenter (task (executions w) a) = []")
      case True
      have "?w1 = ?w0" using True by simp
      then show ?thesis by (simp only: evolves.stay)
    next
      case nonempty: False
      have "move a ?w0 (?w0\<lparr>hasPending := True\<rparr>)" by (rule move.flag) simp
      moreover have "?w0\<lparr>hasPending := True\<rparr> = ?w1" using nonempty by simp
      ultimately show ?thesis by (auto intro: move_evolves)
    qed
    from this e0 have "evolves a w ?w1" by (rule evolves_trans)
    with idle[OF False r] show ?thesis by (rule evolves_trans)
  qed
  from idle any show ?case by blast
qed

lemma run_evolves: "run n task a w = Some (s, w') \<Longrightarrow> evolves a w w'"
  using run_evolves_aux[of n task] by blast

lemma run_idle_evolves:
  "\<not> isRunning w \<Longrightarrow> run n task a w = Some (s, w') \<Longrightarrow>
   evolves a (w\<lparr>isRunning := True,
                hasPending := (hasPending w \<or> reenter (task (executions w) a) \<noteq> []),
                trace := trace w @ [Called a True (hasPending w)]\<rparr>) w'"
  using run_evolves_aux[of n task] by blast

lemma run_evolves_all: "\<forall>w0 s0 w1. run n task a w0 = Some (s0, w1) \<longrightarrow> evolves a w0 w1"
  by (intro allI impI) (rule run_evolves)

lemma complete_run_evolves:
  "complete (run n task) a w = Some (s, w') \<Longrightarrow> evolves a w w'"
  using run_evolves_all[of n task a] by (rule complete_evolves[rotated])

lemma run_trace_extends:
  "run n task a w = Some (s, w') \<Longrightarrow> \<exists>rest. trace w' = trace w @ rest"
  by (rule evolves_trace) (rule run_evolves)

lemma complete_trace:
  assumes "complete (run n task) a w = Some (s, w')"
  shows "\<exists>rest. trace w' = trace w @ Completed a # rest"
  using complete_cases[OF assms] run_trace_extends[of n task a _ s w'] by fastforce

lemma complete_pending_trace:
  assumes "complete (run n task) a w = Some (s, w')" and "hasPending w"
  shows "\<exists>rest. trace w' = trace w @ Completed a # Called a True False # rest"
proof -
  let ?w0 = "w\<lparr>isRunning := False, hasPending := False, trace := trace w @ [Completed a]\<rparr>"
  from complete_cases[OF assms(1)] assms(2) have r: "run n task a ?w0 = Some (s, w')" by auto
  have "\<not> isRunning ?w0" by simp
  from run_idle_evolves[OF this r] have "\<exists>rest. trace w' = (trace w @ [Completed a, Called a True False]) @ rest"
    using evolves_trace by fastforce
  then show ?thesis by auto
qed

lemma run_idle_trace:
  assumes "\<not> isRunning w" and "run n task a w = Some (s, w')"
  shows "\<exists>rest. trace w' = trace w @ Called a True (hasPending w) # rest"
  using evolves_trace[OF run_idle_evolves[OF assms]] by auto

lemma settle_unfold:
  "settle n task i s w =
     (case complete (run n task) (handlers w ! i)
             (w\<lparr>handlers := take i (handlers w) @ drop (Suc i) (handlers w)\<rparr>) of
        None \<Rightarrow> None
      | Some (Raised e, w') \<Rightarrow> Some (Rejected e, w')
      | Some (Returned, w') \<Rightarrow> Some (catch_noop s, w'))"
  by (simp add: settle_def finally_complete_def)

lemma settle_evolves:
  assumes "settle n task i s w = Some (s', w')"
  shows "evolves (handlers w ! i)
           (w\<lparr>handlers := take i (handlers w) @ drop (Suc i) (handlers w)\<rparr>) w'"
proof -
  from assms obtain s0 where
    "complete (run n task) (handlers w ! i)
       (w\<lparr>handlers := take i (handlers w) @ drop (Suc i) (handlers w)\<rparr>) = Some (s0, w')"
    by (auto simp: settle_unfold split: option.splits signal.splits)
  then show ?thesis by (rule complete_run_evolves)
qed

lemma drive_append:
  "drive n task (xs @ ys) w =
     (case drive n task xs w of None \<Rightarrow> None | Some w' \<Rightarrow> drive n task ys w')"
  by (induction xs arbitrary: w) (simp_all split: option.splits)

lemma drive_coalesced:
  "isRunning w \<Longrightarrow>
   drive (Suc n) task (map Invoke bs) w = Some (if bs = [] then w else w\<lparr>hasPending := True\<rparr>)"
  by (induction bs arbitrary: w) (simp_all add: run_running)

lemma run_same_args:
  assumes "run n task a w = Some (s, w')"
  shows "\<exists>k j. called w' = called w @ replicate k a \<and> handlers w' = handlers w @ replicate j a"
  using evolves_called[OF run_evolves[OF assms]] evolves_handlers[OF run_evolves[OF assms]]
  by blast


section \<open>The depth bound is immaterial\<close>

text \<open>
  A call that comes back within a bound on the depth of nesting comes back with the same
  result within every larger bound.
\<close>

lemma body_more_fuel:
  assumes "body rerun as out w = Some x"
    and m: "\<And>a w r. rerun a w = Some r \<Longrightarrow> rerun' a w = Some r"
  shows "body rerun' as out w = Some x"
  using assms(1)
proof (induction as arbitrary: w)
  case Nil
  then show ?case by simp
next
  case (Cons a as)
  from Cons.prems obtain s w1 where r: "rerun a w = Some (s, w1)"
    by (auto split: option.splits)
  from m[OF r] have r': "rerun' a w = Some (s, w1)" .
  show ?case
  proof (cases s)
    case Returned
    with Cons.prems r have "body rerun as out w1 = Some x" by simp
    from Cons.IH[OF this] Returned r' show ?thesis by simp
  next
    case (Raised e)
    with Cons.prems r r' show ?thesis by simp
  qed
qed

lemma complete_more_fuel:
  assumes "complete rerun a w = Some r"
    and "\<And>a w r. rerun a w = Some r \<Longrightarrow> rerun' a w = Some r"
  shows "complete rerun' a w = Some r"
  using assms by (auto simp: complete_def Let_def split: if_splits)

lemma catch_block_more_fuel:
  assumes "catch_block rerun a e w = Some r"
    and m: "\<And>a w r. rerun a w = Some r \<Longrightarrow> rerun' a w = Some r"
  shows "catch_block rerun' a e w = Some r"
proof -
  from assms(1) obtain s0 w' where c: "complete rerun a w = Some (s0, w')"
    by (auto simp: catch_block_def split: option.splits)
  then have "complete rerun' a w = Some (s0, w')"
    by (rule complete_more_fuel) (rule m)
  with c assms(1) show ?thesis by (simp add: catch_block_def)
qed

lemma run_acts_more_fuel:
  assumes "run_acts cb a acts w = Some r"
    and m: "\<And>w r. cb w = Some r \<Longrightarrow> cb' w = Some r"
  shows "run_acts cb' a acts w = Some r"
  using assms(1)
proof (induction acts arbitrary: w)
  case Nil
  then show ?case by simp
next
  case (Cons act acts)
  show ?case
  proof (cases act)
    case KeepArg
    with Cons.prems have "run_acts cb a acts (w\<lparr>handlers := handlers w @ [a]\<rparr>) = Some r" by simp
    from Cons.IH[OF this] KeepArg show ?thesis by simp
  next
    case CallArg
    with Cons.prems obtain s1 w1 where c: "cb w = Some (s1, w1)" by (auto split: option.splits)
    from m[OF c] have c': "cb' w = Some (s1, w1)" .
    show ?thesis
    proof (cases s1)
      case Returned
      with Cons.prems CallArg c have "run_acts cb a acts w1 = Some r" by simp
      from Cons.IH[OF this] Returned c' CallArg show ?thesis by simp
    next
      case (Raised e)
      with Cons.prems CallArg c c' show ?thesis by auto
    qed
  next
    case TryCallArg
    with Cons.prems obtain s1 w1 where c: "cb w = Some (s1, w1)" by (auto split: option.splits)
    from m[OF c] have c': "cb' w = Some (s1, w1)" .
    from Cons.prems TryCallArg c have "run_acts cb a acts w1 = Some r" by simp
    from Cons.IH[OF this] c' TryCallArg show ?thesis by simp
  qed
qed

lemma hand_over_more_fuel:
  assumes "hand_over rerun a v w = Some r"
    and m: "\<And>a w r. rerun a w = Some r \<Longrightarrow> rerun' a w = Some r"
  shows "hand_over rerun' a v w = Some r"
proof (cases "finally_of v")
  case (Inl e)
  with assms(1) show ?thesis by (simp add: hand_over_def)
next
  case (Inr c)
  obtain acts fin where c: "c = Routine acts fin" by (cases c)
  from assms(1) Inr c obtain r1 where r1: "run_acts (complete rerun a) a acts w = Some r1"
    by (auto simp: hand_over_def split: option.splits)
  have "run_acts (complete rerun' a) a acts w = Some r1"
    using r1
  proof (rule run_acts_more_fuel)
    fix w0 r0
    assume "complete rerun a w0 = Some r0"
    then show "complete rerun' a w0 = Some r0" by (rule complete_more_fuel) (rule m)
  qed
  with r1 assms(1) Inr c show ?thesis by (simp add: hand_over_def)
qed

lemma run_more_fuel: "run n task a w = Some r \<Longrightarrow> run (Suc n) task a w = Some r"
proof (induction n arbitrary: a w r)
  case 0
  then show ?case by simp
next
  case (Suc n)
  show ?case
  proof (cases "isRunning w")
    case True
    with Suc.prems show ?thesis by (simp add: run_running)
  next
    case False
    from Suc.prems False obtain out w1 where
      c: "call_fn (run n task) task a (w\<lparr>isRunning := True\<rparr>) = Some (out, w1)"
      by (auto simp: run.simps(2) split: option.splits)
    then have c': "call_fn (run (Suc n) task) task a (w\<lparr>isRunning := True\<rparr>) = Some (out, w1)"
      unfolding call_fn_def Let_def by (rule body_more_fuel) (rule Suc.IH)
    show ?thesis
    proof (cases out)
      case (Throws e)
      with Suc.prems False c have "catch_block (run n task) a e w1 = Some r"
        by (simp add: run.simps(2))
      then have "catch_block (run (Suc n) task) a e w1 = Some r"
        by (rule catch_block_more_fuel) (rule Suc.IH)
      with Throws False c' show ?thesis
        by (simp add: run.simps(2)[of "Suc n"])
    next
      case (Returns v)
      show ?thesis
      proof (cases "then_test v")
        case (Inl e)
        with Suc.prems False c Returns have "catch_block (run n task) a e w1 = Some r"
          by (simp add: run.simps(2))
        then have "catch_block (run (Suc n) task) a e w1 = Some r"
          by (rule catch_block_more_fuel) (rule Suc.IH)
        with Returns Inl False c' show ?thesis
          by (simp add: run.simps(2)[of "Suc n"])
      next
        case (Inr t)
        show ?thesis
        proof (cases t)
          case nt: False
          with Suc.prems False c Returns Inr have "complete (run n task) a w1 = Some r"
            by (simp add: run.simps(2))
          then have "complete (run (Suc n) task) a w1 = Some r"
            by (rule complete_more_fuel) (rule Suc.IH)
          with Returns nt Inr False c' show ?thesis
            by (simp add: run.simps(2)[of "Suc n"])
        next
          case True
          from Suc.prems False c Returns Inr True obtain s1 w2 where
            h: "hand_over (run n task) a v w1 = Some (s1, w2)"
            by (auto simp: run.simps(2) split: option.splits)
          then have h': "hand_over (run (Suc n) task) a v w1 = Some (s1, w2)"
            by (rule hand_over_more_fuel) (rule Suc.IH)
          show ?thesis
          proof (cases s1)
            case Returned
            with Suc.prems False c c' Returns Inr True h h' show ?thesis
              by (auto simp: run.simps(2))
          next
            case (Raised e)
            with Suc.prems False c Returns Inr True h
            have "catch_block (run n task) a e w2 = Some r"
              by (simp add: run.simps(2))
            then have "catch_block (run (Suc n) task) a e w2 = Some r"
              by (rule catch_block_more_fuel) (rule Suc.IH)
            with Returns Inr True False c' h' Raised show ?thesis
              by (simp add: run.simps(2)[of "Suc n"])
          qed
        qed
      qed
    qed
  qed
qed

lemma run_fuel_le: "n \<le> m \<Longrightarrow> run n task a w = Some r \<Longrightarrow> run m task a w = Some r"
  by (induction m) (auto simp: le_Suc_eq dest: run_more_fuel)

lemma settle_fuel_le:
  assumes "n \<le> m" and "settle n task i s w = Some r"
  shows "settle m task i s w = Some r"
proof -
  let ?w0 = "w\<lparr>handlers := take i (handlers w) @ drop (Suc i) (handlers w)\<rparr>"
  from assms(2) obtain s0 w' where c: "complete (run n task) (handlers w ! i) ?w0 = Some (s0, w')"
    by (auto simp: settle_def finally_complete_def split: option.splits)
  then have "complete (run m task) (handlers w ! i) ?w0 = Some (s0, w')"
    by (rule complete_more_fuel) (rule run_fuel_le[OF assms(1)])
  with c assms(2) show ?thesis by (simp add: settle_def finally_complete_def)
qed

lemma step_fuel_le:
  assumes "n \<le> m" and "step n task ev w = Some w'"
  shows "step m task ev w = Some w'"
proof (cases ev)
  case (Invoke a)
  with assms(2) obtain s where "run n task a w = Some (s, w')" by auto
  from run_fuel_le[OF assms(1) this] Invoke show ?thesis by simp
next
  case (Settle i s)
  show ?thesis
  proof (cases "i < length (handlers w)")
    case True
    with assms(2) Settle obtain s' where "settle n task i s w = Some (s', w')" by auto
    from settle_fuel_le[OF assms(1) this] Settle True show ?thesis by simp
  next
    case False
    with assms(2) Settle show ?thesis by simp
  qed
qed

lemma drive_fuel_le:
  "n \<le> m \<Longrightarrow> drive n task evs w = Some w' \<Longrightarrow> drive m task evs w = Some w'"
proof (induction evs arbitrary: w)
  case Nil
  then show ?case by simp
next
  case (Cons ev evs)
  from Cons.prems(2) obtain w1 where s: "step n task ev w = Some w1"
    and d: "drive n task evs w1 = Some w'"
    by (auto split: option.splits)
  from step_fuel_le[OF Cons.prems(1) s] Cons.IH[OF Cons.prems(1) d] show ?case by simp
qed

section \<open>Calls that come back\<close>

text \<open>
  With nothing pending, the completion step makes no call of the runner, and line 67
  comes back whatever it does with the closure.
\<close>

lemma run_acts_quiet:
  "\<not> hasPending w \<Longrightarrow>
   \<exists>s w'. run_acts (complete rerun a) a acts w = Some (s, w') \<and> \<not> hasPending w' \<and>
           called w' = called w"
proof (induction acts arbitrary: w)
  case Nil
  then show ?case by simp
next
  case (Cons act acts)
  let ?w1 = "w\<lparr>isRunning := False, trace := trace w @ [Completed a]\<rparr>"
  from Cons.prems have c: "complete rerun a w = Some (Returned, ?w1)" by (rule complete_quiet)
  from Cons.prems have "\<not> hasPending ?w1" by simp
  from Cons.IH[OF this] have 1: "\<exists>s w'. run_acts (complete rerun a) a acts ?w1 = Some (s, w') \<and>
      \<not> hasPending w' \<and> called w' = called w" by (simp add: called_def)
  from Cons.prems have "\<not> hasPending (w\<lparr>handlers := handlers w @ [a]\<rparr>)" by simp
  from Cons.IH[OF this] have 2: "\<exists>s w'. run_acts (complete rerun a) a acts
      (w\<lparr>handlers := handlers w @ [a]\<rparr>) = Some (s, w') \<and> \<not> hasPending w' \<and>
      called w' = called w" by simp
  from 1 2 c show ?case by (cases act) simp_all
qed

lemma hand_over_quiet:
  assumes "\<not> hasPending w"
  shows "\<exists>s w'. hand_over rerun a v w = Some (s, w') \<and> \<not> hasPending w' \<and> called w' = called w"
proof (cases "finally_of v")
  case (Inl e)
  with assms show ?thesis by (simp add: hand_over_def)
next
  case (Inr c)
  obtain acts fin where c: "c = Routine acts fin" by (cases c)
  from run_acts_quiet[OF assms, of rerun a acts] obtain s1 w1 where
    "run_acts (complete rerun a) a acts w = Some (s1, w1)" "\<not> hasPending w1"
    "called w1 = called w" by blast
  with Inr c show ?thesis
    by (cases s1; cases fin) (simp_all add: hand_over_def)
qed

lemma catch_block_comes_back:
  "complete rerun a w = Some (s, w') \<Longrightarrow> \<exists>s'. catch_block rerun a e w = Some (s', w')"
  by (cases s) (simp_all add: catch_block_def)

text \<open>
  An execution that makes no inner call, started with nothing pending, comes back within
  every bound, with nothing pending.
\<close>

lemma run_quiet:
  assumes "\<not> isRunning w" and "\<not> hasPending w" and "reenter (task (executions w) a) = []"
  shows "\<exists>s w' rest. run (Suc n) task a w = Some (s, w') \<and> \<not> hasPending w' \<and>
           trace w' = trace w @ Called a True False # rest \<and> called w' = called w @ [a]"
proof -
  define b where "b = task (executions w) a"
  define w1 where "w1 = w\<lparr>isRunning := True, hasPending := (hasPending w \<or> reenter b \<noteq> []),
                trace := trace w @ [Called a True (hasPending w)]\<rparr>"
  note eq = run_idle_eq[where task = task and a = a and n = n, OF assms(1) b_def w1_def]
  from assms have q: "\<not> hasPending w1" and rs: "reenter b = []" by (simp_all add: w1_def b_def)
  have c1: "called w1 = called w @ [a]" by (simp add: w1_def called_def)
  let ?w2 = "w1\<lparr>isRunning := False, trace := trace w1 @ [Completed a]\<rparr>"
  have c2: "called ?w2 = called w1" by (simp add: called_def)
  from q have c: "complete (run n task) a w1 = Some (Returned, ?w2)" by (rule complete_quiet)
  from q have cb: "catch_block (run n task) a e w1 = Some (Raised e, ?w2)" for e
    by (rule catch_block_quiet)
  have "\<exists>s w'. run (Suc n) task a w = Some (s, w') \<and> \<not> hasPending w' \<and> called w' = called w1"
  proof (cases "outcome b")
    case (Throws e)
    with rs cb q c2 show ?thesis unfolding eq by simp
  next
    case (Returns v)
    show ?thesis
    proof (cases "then_test v")
      case (Inl e)
      with Returns rs cb q c2 show ?thesis unfolding eq by simp
    next
      case (Inr t)
      show ?thesis
      proof (cases t)
        case False
        with Returns Inr rs c q c2 show ?thesis unfolding eq by simp
      next
        case True
        from hand_over_quiet[OF q, of "run n task" a v] obtain s1 w2 where
          h: "hand_over (run n task) a v w1 = Some (s1, w2)" and q2: "\<not> hasPending w2"
          and k2: "called w2 = called w1" by blast
        show ?thesis
        proof (cases s1)
          case Returned
          with Returns Inr True rs h q2 k2 show ?thesis unfolding eq by simp
        next
          case (Raised e)
          from q2 have "catch_block (run n task) a e w2 =
              Some (Raised e, w2\<lparr>isRunning := False, trace := trace w2 @ [Completed a]\<rparr>)"
            by (rule catch_block_quiet)
          moreover have "called (w2\<lparr>isRunning := False, trace := trace w2 @ [Completed a]\<rparr>)
              = called w1" using k2 by (simp add: called_def)
          ultimately show ?thesis using Raised Returns Inr True rs h q2 unfolding eq by simp
        qed
      qed
    qed
  qed
  then obtain s w' where r: "run (Suc n) task a w = Some (s, w')" and "\<not> hasPending w'"
    and "called w' = called w1" by blast
  moreover from run_idle_trace[OF assms(1) r] assms(2)
  have "\<exists>rest. trace w' = trace w @ Called a True False # rest" by simp
  ultimately show ?thesis using c1 by auto
qed

text \<open>
  When the executions make no inner call from some execution on, every call comes back
  within a bound that covers the executions before that one.
\<close>

lemma complete_comes_back:
  assumes R: "\<forall>a w. \<not> isRunning w \<and> \<not> hasPending w \<and> K \<le> executions w + d \<longrightarrow>
                (\<exists>r. run (Suc d) task a w = Some r)"
    and K: "K \<le> executions w + d"
  shows "\<exists>s w'. complete (run (Suc d) task) a w = Some (s, w') \<and> K \<le> executions w' + d"
proof (cases "hasPending w")
  case False
  with K show ?thesis by (simp add: complete_quiet executions_def called_def)
next
  case True
  let ?w0 = "w\<lparr>isRunning := False, hasPending := False, trace := trace w @ [Completed a]\<rparr>"
  have e: "executions ?w0 = executions w" by (simp add: executions_def called_def)
  with R K have "\<exists>r. run (Suc d) task a ?w0 = Some r" by simp
  then obtain s w' where r: "run (Suc d) task a ?w0 = Some (s, w')" by (cases) auto
  from evolves_executions[OF run_evolves[OF r]] e K have "K \<le> executions w' + d" by simp
  with r True show ?thesis by (simp add: complete_pending)
qed

lemma run_acts_comes_back:
  assumes R: "\<forall>a w. \<not> isRunning w \<and> \<not> hasPending w \<and> K \<le> executions w + d \<longrightarrow>
                (\<exists>r. run (Suc d) task a w = Some r)"
  shows "K \<le> executions w + d \<Longrightarrow>
    \<exists>s w'. run_acts (complete (run (Suc d) task) a) a acts w = Some (s, w') \<and>
            K \<le> executions w' + d"
proof (induction acts arbitrary: w)
  case Nil
  then show ?case by simp
next
  case (Cons act acts)
  from complete_comes_back[OF R Cons.prems, of a] obtain s1 w1 where
    c: "complete (run (Suc d) task) a w = Some (s1, w1)" and K1: "K \<le> executions w1 + d"
    by blast
  from Cons.IH[OF K1] have 1: "\<exists>s w'. run_acts (complete (run (Suc d) task) a) a acts w1
      = Some (s, w') \<and> K \<le> executions w' + d" .
  from Cons.prems have "K \<le> executions (w\<lparr>handlers := handlers w @ [a]\<rparr>) + d" by simp
  from Cons.IH[OF this] have 2: "\<exists>s w'. run_acts (complete (run (Suc d) task) a) a acts
      (w\<lparr>handlers := handlers w @ [a]\<rparr>) = Some (s, w') \<and> K \<le> executions w' + d" .
  from 1 2 c K1 show ?case by (cases act; cases s1) simp_all
qed

lemma hand_over_comes_back:
  assumes R: "\<forall>a w. \<not> isRunning w \<and> \<not> hasPending w \<and> K \<le> executions w + d \<longrightarrow>
                (\<exists>r. run (Suc d) task a w = Some r)"
    and K: "K \<le> executions w + d"
  shows "\<exists>s w'. hand_over (run (Suc d) task) a v w = Some (s, w') \<and> K \<le> executions w' + d"
proof (cases "finally_of v")
  case (Inl e)
  with K show ?thesis by (simp add: hand_over_def)
next
  case (Inr c)
  obtain acts fin where c: "c = Routine acts fin" by (cases c)
  from run_acts_comes_back[OF R K, of a acts] obtain s1 w1 where
    "run_acts (complete (run (Suc d) task) a) a acts w = Some (s1, w1)"
    "K \<le> executions w1 + d" by blast
  with Inr c show ?thesis
    by (cases s1; cases fin) (simp_all add: hand_over_def)
qed

lemma run_comes_back_aux:
  assumes q: "quiet_from task K"
  shows "\<forall>a w. (hasPending w \<longrightarrow> isRunning w) \<and> K \<le> executions w + d \<longrightarrow>
           (\<exists>r. run (Suc d) task a w = Some r)"
proof (induction d)
  case 0
  show ?case
  proof (intro allI impI)
    fix a and w :: "'a world"
    assume h: "(hasPending w \<longrightarrow> isRunning w) \<and> K \<le> executions w + 0"
    show "\<exists>r. run (Suc 0) task a w = Some r"
    proof (cases "isRunning w")
      case True
      then show ?thesis by (simp add: run_running)
    next
      case False
      with h have "\<not> hasPending w" by blast
      moreover from q h have "reenter (task (executions w) a) = []"
        by (simp add: quiet_from_def)
      ultimately show ?thesis using run_quiet[OF False, of task a 0] by blast
    qed
  qed
next
  case (Suc d)
  then have R: "\<forall>a w. \<not> isRunning w \<and> \<not> hasPending w \<and> K \<le> executions w + d \<longrightarrow>
                (\<exists>r. run (Suc d) task a w = Some r)" by blast
  show ?case
  proof (intro allI impI)
    fix a and w :: "'a world"
    assume h: "(hasPending w \<longrightarrow> isRunning w) \<and> K \<le> executions w + Suc d"
    show "\<exists>r. run (Suc (Suc d)) task a w = Some r"
    proof (cases "isRunning w")
      case True
      then show ?thesis by (simp add: run_running)
    next
      case False
      define b where "b = task (executions w) a"
      define w1 where "w1 = w\<lparr>isRunning := True, hasPending := (hasPending w \<or> reenter b \<noteq> []),
                trace := trace w @ [Called a True (hasPending w)]\<rparr>"
      note eq = run_idle_eq[where task = task and a = a and n = "Suc d", OF False b_def w1_def]
      from h have K1: "K \<le> executions w1 + d"
        by (simp add: w1_def executions_def called_def)
      have cm: "\<exists>r. catch_block (run (Suc d) task) a e w2 = Some r"
        if "K \<le> executions w2 + d" for e w2
        using complete_comes_back[OF R that, of a] catch_block_comes_back by fastforce
      show ?thesis
      proof (cases "outcome b")
        case (Throws e)
        with cm[OF K1, of e] show ?thesis unfolding eq by simp
      next
        case (Returns v)
        show ?thesis
        proof (cases "then_test v")
          case (Inl e)
          with Returns cm[OF K1, of e] show ?thesis unfolding eq by simp
        next
          case (Inr t)
          show ?thesis
          proof (cases t)
            case nt: False
            with Returns Inr complete_comes_back[OF R K1, of a] show ?thesis
              unfolding eq by auto
          next
            case True
            from hand_over_comes_back[OF R K1, of a v] obtain s1 w2 where
              hh: "hand_over (run (Suc d) task) a v w1 = Some (s1, w2)"
              and K2: "K \<le> executions w2 + d" by blast
            show ?thesis
            proof (cases s1)
              case Returned
              with Returns Inr True hh show ?thesis unfolding eq by simp
            next
              case (Raised e)
              with Returns Inr True hh cm[OF K2, of e] show ?thesis unfolding eq by simp
            qed
          qed
        qed
      qed
    qed
  qed
qed

lemma run_comes_back:
  assumes "quiet_from task K" and "K \<le> executions w + d" and "hasPending w \<longrightarrow> isRunning w"
  shows "\<exists>s w'. run (Suc d) task a w = Some (s, w')"
  using run_comes_back_aux[OF assms(1), of d] assms(2,3) by fastforce

lemma settle_comes_back:
  assumes "quiet_from task K" and "K \<le> executions w + d"
  shows "\<exists>s' w'. settle (Suc d) task i s w = Some (s', w')"
proof -
  have R: "\<forall>a w. \<not> isRunning w \<and> \<not> hasPending w \<and> K \<le> executions w + d \<longrightarrow>
                (\<exists>r. run (Suc d) task a w = Some r)"
    using run_comes_back_aux[OF assms(1), of d] by blast
  let ?w0 = "w\<lparr>handlers := take i (handlers w) @ drop (Suc i) (handlers w)\<rparr>"
  from assms(2) have "K \<le> executions ?w0 + d" by simp
  from complete_comes_back[OF R this, of "handlers w ! i"] obtain s0 w' where
    "complete (run (Suc d) task) (handlers w ! i) ?w0 = Some (s0, w')" by blast
  then show ?thesis by (cases s0) (simp_all add: settle_unfold)
qed

lemma step_evolves:
  assumes "step n task ev w = Some w'"
  shows "\<exists>a w0. evolves a w0 w' \<and> isRunning w0 = isRunning w \<and> hasPending w0 = hasPending w \<and>
           trace w0 = trace w"
proof (cases ev)
  case (Invoke a)
  with assms obtain s where "run n task a w = Some (s, w')" by auto
  from run_evolves[OF this] show ?thesis by blast
next
  case (Settle i s)
  show ?thesis
  proof (cases "i < length (handlers w)")
    case True
    with assms Settle obtain s' where "settle n task i s w = Some (s', w')" by auto
    from settle_evolves[OF this] show ?thesis by fastforce
  next
    case False
    with assms Settle have "w' = w" by simp
    then show ?thesis using evolves.stay[of undefined w] by blast
  qed
qed

lemma step_pending:
  assumes "step n task ev w = Some w'" and "hasPending w \<longrightarrow> isRunning w"
  shows "hasPending w' \<longrightarrow> isRunning w'"
proof -
  from step_evolves[OF assms(1)] obtain a w0 where e: "evolves a w0 w'"
    and "isRunning w0 = isRunning w" "hasPending w0 = hasPending w" by blast
  with assms(2) have "hasPending w0 \<longrightarrow> isRunning w0" by simp
  from evolves_pending[OF e this] show ?thesis .
qed

lemma step_executions:
  assumes "step n task ev w = Some w'"
  shows "executions w \<le> executions w'"
proof -
  from step_evolves[OF assms(1)] obtain a w0 where e: "evolves a w0 w'"
    and "trace w0 = trace w" by blast
  with evolves_executions[OF e] show ?thesis by (simp add: executions_def called_def)
qed

lemma step_comes_back:
  assumes "quiet_from task K" and "K \<le> executions w + d" and "hasPending w \<longrightarrow> isRunning w"
  shows "\<exists>w'. step (Suc d) task ev w = Some w'"
proof (cases ev)
  case (Invoke a)
  with run_comes_back[OF assms, of a] show ?thesis by auto
next
  case (Settle i s)
  with settle_comes_back[OF assms(1,2), of i s] show ?thesis by auto
qed

lemma drive_comes_back:
  assumes q: "quiet_from task K"
  shows "K \<le> executions w + d \<Longrightarrow> hasPending w \<longrightarrow> isRunning w \<Longrightarrow>
         \<exists>w'. drive (Suc d) task evs w = Some w'"
proof (induction evs arbitrary: w)
  case Nil
  show ?case by simp
next
  case (Cons ev evs)
  from step_comes_back[OF q Cons.prems, of ev] obtain w1 where
    s: "step (Suc d) task ev w = Some w1" by blast
  from step_executions[OF s] Cons.prems(1) have "K \<le> executions w1 + d" by simp
  from Cons.IH[OF this step_pending[OF s Cons.prems(2)]] s show ?case by simp
qed

section \<open>The concrete values\<close>

lemma promise_facts:
  "then_test a_promise = Inr True"
  "finally_of a_promise = Inr (Routine [KeepArg] (Return JUndefined))"
  "hand_over rerun a a_promise w = Some (Returned, w\<lparr>handlers := handlers w @ [a]\<rparr>)"
  "defers a_promise" "keeps a_promise = 1" "spec_thenable a_promise"
  by (simp_all add: a_promise_def chained_promise_def a_function_def keeping_def then_test_def
        finally_of_def hand_over_def defers_def keeps_def is_thenable_def)

lemma plain_facts:
  "then_test JUndefined = Inr False" "\<not> spec_thenable JUndefined" "\<not> defers JUndefined"
  by (simp_all add: then_test_def defers_def is_thenable_def)

lemma bare_facts:
  "then_test bare_thenable = Inr True"
  "finally_of bare_thenable = Inl type_error"
  "hand_over rerun a bare_thenable w = Some (Raised type_error, w)"
  "\<not> defers bare_thenable" "spec_thenable bare_thenable" "is_thenable bare_thenable"
  by (simp_all add: bare_thenable_def a_function_def then_test_def finally_of_def hand_over_def
        defers_def is_thenable_def)

lemma eager_facts:
  "then_test eager_thenable = Inr True"
  "finally_of eager_thenable = Inr (Routine [CallArg] (Return JUndefined))"
  "\<not> defers eager_thenable" "spec_thenable eager_thenable"
  by (simp_all add: eager_thenable_def a_function_def then_test_def finally_of_def
        defers_def is_thenable_def)

lemma guarded_facts:
  "then_test guarded_thenable = Inl (JString ''no'')" "\<not> spec_thenable guarded_thenable"
  "\<not> defers guarded_thenable"
  by (simp_all add: guarded_thenable_def then_test_def defers_def is_thenable_def)

text \<open>What line 67 does with a value, from what \<open>finally\<close> does with the closure.\<close>

lemma run_acts_keep:
  "CallArg \<notin> set acts \<Longrightarrow> TryCallArg \<notin> set acts \<Longrightarrow>
   run_acts cb a acts w =
     Some (Returned, w\<lparr>handlers := handlers w @ replicate (length (filter (\<lambda>x. x = KeepArg) acts)) a\<rparr>)"
proof (induction acts arbitrary: w)
  case Nil
  show ?case by simp
next
  case (Cons act acts)
  then have act: "act = KeepArg" by (cases act) auto
  from Cons have "run_acts cb a acts (w\<lparr>handlers := handlers w @ [a]\<rparr>) =
     Some (Returned, w\<lparr>handlers := (handlers w @ [a]) @
             replicate (length (filter (\<lambda>x. x = KeepArg) acts)) a\<rparr>)"
    by simp
  with act show ?case by simp
qed

lemma defers_hand_over:
  assumes "defers v"
  shows "hand_over rerun a v w =
     Some (Returned, w\<lparr>handlers := handlers w @ replicate (keeps v) a\<rparr>)"
proof -
  from assms obtain acts x where f: "finally_of v = Inr (Routine acts (Return x))"
    and n: "CallArg \<notin> set acts" "TryCallArg \<notin> set acts"
    by (auto simp: defers_def split: sum.splits routine.splits ending.splits)
  from f show ?thesis by (simp add: hand_over_def keeps_def run_acts_keep[OF n])
qed

lemma run_acts_trace:
  assumes "run_acts (complete (run n task) a) a acts w = Some (s, w')"
  shows "(CallArg \<notin> set acts \<and> TryCallArg \<notin> set acts \<and> trace w' = trace w \<and> s = Returned)
       \<or> (\<exists>rest. trace w' = trace w @ Completed a # rest)"
  using assms
proof (induction acts arbitrary: w)
  case Nil
  then show ?case by simp
next
  case (Cons act acts)
  have called: ?case
    if c: "complete (run n task) a w = Some (s1, w1)"
      and r: "s = s1 \<and> w' = w1 \<or> run_acts (complete (run n task) a) a acts w1 = Some (s, w')"
    for s1 w1
  proof -
    from complete_trace[OF c] obtain rest1 where t1: "trace w1 = trace w @ Completed a # rest1"
      by blast
    from r have "\<exists>rest2. trace w' = trace w1 @ rest2"
    proof
      assume "s = s1 \<and> w' = w1"
      then show ?thesis by simp
    next
      assume "run_acts (complete (run n task) a) a acts w1 = Some (s, w')"
      from Cons.IH[OF this] show ?thesis by auto
    qed
    with t1 show ?thesis by auto
  qed
  show ?case
  proof (cases act)
    case KeepArg
    with Cons.prems have "run_acts (complete (run n task) a) a acts
        (w\<lparr>handlers := handlers w @ [a]\<rparr>) = Some (s, w')" by simp
    from Cons.IH[OF this] KeepArg show ?thesis by simp
  next
    case CallArg
    with Cons.prems obtain s1 w1 where c: "complete (run n task) a w = Some (s1, w1)"
      by (auto split: option.splits)
    with Cons.prems CallArg
    have "s = s1 \<and> w' = w1 \<or> run_acts (complete (run n task) a) a acts w1 = Some (s, w')"
      by (cases s1) auto
    with c show ?thesis by (rule called)
  next
    case TryCallArg
    with Cons.prems obtain s1 w1 where c: "complete (run n task) a w = Some (s1, w1)"
      by (auto split: option.splits)
    with Cons.prems TryCallArg
    have "s = s1 \<and> w' = w1 \<or> run_acts (complete (run n task) a) a acts w1 = Some (s, w')"
      by auto
    with c show ?thesis by (rule called)
  qed
qed

lemma hand_over_trace:
  assumes "hand_over (run n task) a v w = Some (s, w')" and "is_thenable v"
  shows "(defers v \<and> s = Returned \<and> w' = w\<lparr>handlers := handlers w @ replicate (keeps v) a\<rparr>)
       \<or> (\<not> defers v \<and> ((\<exists>e. s = Raised e) \<and> trace w' = trace w
                        \<or> (\<exists>rest. trace w' = trace w @ Completed a # rest)))"
proof (cases "defers v")
  case True
  with assms(1) defers_hand_over[OF True, of "run n task" a w] show ?thesis by simp
next
  case False
  from assms(1) show ?thesis
  proof (cases rule: hand_over_cases)
    case (early e)
    with False show ?thesis by simp
  next
    case (called acts fin s1)
    from run_acts_trace[OF called(2)] show ?thesis
    proof
      assume k: "CallArg \<notin> set acts \<and> TryCallArg \<notin> set acts \<and> trace w' = trace w \<and> s1 = Returned"
      with False called(1) assms(2) obtain e where "fin = Throw e"
        by (cases fin) (auto simp: defers_def)
      with k called(3) False show ?thesis by simp
    next
      assume "\<exists>rest. trace w' = trace w @ Completed a # rest"
      with False show ?thesis by simp
    qed
  qed
qed

section \<open>Calls that arrive during an execution, and calls that find the runner idle\<close>

text \<open>
  Claim C8. Calling the runner while an execution is running is idempotent on the state of
  the runner: after any number \<open>k \<ge> 1\<close> of such calls, with whatever arguments, the
  state is the state after one such call. \<open>hasPending\<close> is true, \<open>isRunning\<close> is as it
  was, no closure has been handed over, and nothing was observed: \<open>fn\<close> was not called.
\<close>

theorem coalesced_calls_idempotent:
  assumes "isRunning w" and "bs \<noteq> []"
  shows "\<exists>w'. drive (Suc n) task (map Invoke bs) w = Some w' \<and>
              run (Suc n) task b w = Some (Returned, w') \<and>
              hasPending w' \<and> isRunning w' \<and> handlers w' = handlers w \<and> trace w' = trace w"
  using assms by (simp add: drive_coalesced run_running)

theorem coalesced_calls_idempotent_witness:
  "isRunning in_flight \<and> [[2], [3], [4::nat]] \<noteq> [] \<and>
   drive (Suc 0) async_task (map Invoke [[2], [3], [4]]) in_flight
     = Some (in_flight\<lparr>hasPending := True\<rparr>) \<and>
   run (Suc 0) async_task [5] in_flight = Some (Returned, in_flight\<lparr>hasPending := True\<rparr>)"
  using coalesced_calls_idempotent[of in_flight "[[2], [3], [4]]" 0 async_task "[5]"]
  by (simp add: in_flight_def run.simps)

text \<open>
  Claim C7. A call of the runner that finds \<open>isRunning\<close> false calls \<open>fn\<close> inside that
  same call: when the call returns or raises, the first thing observed since it began is
  \<open>fn\<close> called with its arguments, \<open>isRunning\<close> being true by then. What that execution of
  \<open>fn\<close> does decides the call: with nothing pending and no inner call, the call raises
  what \<open>fn\<close> throws, and returns when \<open>fn\<close> returns a value that does not pass the test of
  lines 61 to 66, the completion step having run in both cases; the inner calls that
  \<open>fn\<close> makes are made during the execution, so that a completion step that runs inside
  the call starts a follow-up execution inside the call too. The call comes back whenever
  that execution makes no inner call and nothing was pending, and also when executions
  make inner calls, provided they stop doing so from some execution on.
\<close>

theorem idle_immediacy:
  assumes "\<not> isRunning w"
  shows "(\<forall>s w'. run n task a w = Some (s, w') \<longrightarrow>
            (\<exists>rest. trace w' = trace w @ Called a True (hasPending w) # rest))
       \<and> (reenter (task (executions w) a) = [] \<and> \<not> hasPending w \<longrightarrow>
            (\<exists>s w'. run (Suc n) task a w = Some (s, w')))
       \<and> (\<forall>e. task (executions w) a = Behaviour [] (Throws e) \<and> \<not> hasPending w \<longrightarrow>
            run (Suc n) task a w =
              Some (Raised e, w\<lparr>isRunning := False,
                                trace := trace w @ [Called a True False, Completed a]\<rparr>))
       \<and> (\<forall>v. task (executions w) a = Behaviour [] (Returns v) \<and> then_test v = Inr False \<and>
              \<not> hasPending w \<longrightarrow>
            run (Suc n) task a w =
              Some (Returned, w\<lparr>isRunning := False,
                                trace := trace w @ [Called a True False, Completed a]\<rparr>))
       \<and> (\<forall>rs out. task (executions w) a = Behaviour rs out \<and> rs \<noteq> [] \<and>
              (\<forall>v. out = Returns v \<longrightarrow> \<not> is_thenable v) \<longrightarrow>
            (\<forall>s w'. run n task a w = Some (s, w') \<longrightarrow>
               (\<exists>rest. trace w' =
                  trace w @ Called a True (hasPending w) # Completed a # Called a True False # rest)))
       \<and> (\<forall>K. quiet_from task K \<and> K \<le> executions w + n \<and> \<not> hasPending w \<longrightarrow>
            (\<exists>s w'. run (Suc n) task a w = Some (s, w')))"
proof -
  have first: "\<exists>rest. trace w' = trace w @ Called a True (hasPending w) # rest"
    if "run n task a w = Some (s, w')" for s w'
    using assms that by (rule run_idle_trace)
  have comes: "\<exists>s w'. run (Suc n) task a w = Some (s, w')"
    if "reenter (task (executions w) a) = [] \<and> \<not> hasPending w"
    using run_quiet[OF assms, of task a n] that by blast
  have throws: "run (Suc n) task a w =
      Some (Raised e, w\<lparr>isRunning := False, trace := trace w @ [Called a True False, Completed a]\<rparr>)"
    if "task (executions w) a = Behaviour [] (Throws e) \<and> \<not> hasPending w" for e
    using assms that by (simp add: run_idle Let_def catch_block_quiet)
  have returns: "run (Suc n) task a w =
      Some (Returned, w\<lparr>isRunning := False, trace := trace w @ [Called a True False, Completed a]\<rparr>)"
    if "task (executions w) a = Behaviour [] (Returns v) \<and> then_test v = Inr False \<and> \<not> hasPending w"
    for v
    using assms that by (simp add: run_idle Let_def complete_quiet)
  have inner: "\<exists>rest. trace w' =
      trace w @ Called a True (hasPending w) # Completed a # Called a True False # rest"
    if t: "task (executions w) a = Behaviour rs out \<and> rs \<noteq> [] \<and>
           (\<forall>v. out = Returns v \<longrightarrow> \<not> is_thenable v)"
      and r: "run n task a w = Some (s, w')" for rs out s w'
  proof -
    from r obtain m where n: "n = Suc m" by (cases n) auto
    let ?w1 = "w\<lparr>isRunning := True,
         hasPending := (hasPending w \<or> reenter (task (executions w) a) \<noteq> []),
         trace := trace w @ [Called a True (hasPending w)]\<rparr>"
    from t have p: "hasPending ?w1" by simp
    have "\<exists>s0. complete (run m task) a ?w1 = Some (s0, w')"
      using assms r[unfolded n]
    proof (cases rule: run_idle_cases)
      case (ended e s0)
      then show ?thesis by blast
    next
      case (plain v)
      then show ?thesis by blast
    next
      case (handed v)
      with t show ?thesis by (simp add: is_thenable_def)
    next
      case (refused v e w2 s0)
      with t show ?thesis by (simp add: is_thenable_def)
    qed
    then obtain s0 where "complete (run m task) a ?w1 = Some (s0, w')" by blast
    from complete_pending_trace[OF this p] show ?thesis by auto
  qed
  have quiet: "\<exists>s w'. run (Suc n) task a w = Some (s, w')"
    if "quiet_from task K \<and> K \<le> executions w + n \<and> \<not> hasPending w" for K
    using run_comes_back[of task K w n a] that by blast
  from first comes throws returns inner quiet show ?thesis by blast
qed

theorem idle_immediacy_witness:
  "\<not> isRunning (init :: nat list world) \<and>
   throwing_task (executions (init :: nat list world)) [7] = Behaviour [] (Throws (JString ''boom'')) \<and>
   run (Suc 0) throwing_task [7] init =
     Some (Raised (JString ''boom''), init\<lparr>trace := [Called [7] True False, Completed [7]]\<rparr>) \<and>
   plain_task (executions (init :: nat list world)) [7] = Behaviour [] (Returns JUndefined) \<and>
   run (Suc 0) plain_task [7] init =
     Some (Returned, init\<lparr>trace := [Called [7] True False, Completed [7]]\<rparr>) \<and>
   reentering_task (executions (init :: nat list world)) [7] = Behaviour [[9]] (Returns JUndefined) \<and>
   quiet_from reentering_task 1 \<and>
   run (Suc 1) reentering_task [7] init =
     Some (Returned, init\<lparr>trace := [Called [7] True False, Completed [7],
                                     Called [7] True False, Completed [7]]\<rparr>)"
  using idle_immediacy[of init "Suc 0" throwing_task "[7]"]
        idle_immediacy[of init "Suc 0" plain_task "[7]"]
        idle_immediacy[of init 1 reentering_task "[7]"]
  by (simp add: init_def throwing_task_def plain_task_def reentering_task_def quiet_from_def
        run_idle complete_def catch_block_def plain_facts executions_def called_def)

text \<open>
  Claim C5, as stated, fails for a thenable that is not a promise: the object
  \<open>{then() {}}\<close> passes the test of lines 61 to 66, line 67 then throws a \<open>TypeError\<close> (the
  object has no \<open>catch\<close>), the \<open>catch\<close> block runs the completion step synchronously and the
  call of the runner raises the \<open>TypeError\<close>.
\<close>

theorem thenable_path_counterexample:
  "spec_thenable bare_thenable \<and>
   run (Suc 0) bare_thenable_task [1] init =
     Some (Raised type_error,
           \<lparr>isRunning = False, hasPending = False, handlers = [],
            trace = [Called [1] True False, Completed [1]]\<rparr>)"
  by (simp add: init_def bare_thenable_task_def run_idle complete_def
        catch_block_def bare_facts)

text \<open>
  Claim C5, amended. For a value \<open>v\<close> returned by \<open>fn\<close>, line 67 is reached if and only if
  \<open>v\<close> is a non-null value of object or callable kind that exposes a callable member
  named \<open>then\<close>: the call is then what line 67 makes of it, and for a value that does not
  pass the test it is the completion step, or the \<open>catch\<close> block when the read of \<open>then\<close>
  throws. The completion is deferred exactly when line 67 is reached and comes back
  without the closure having been called: \<open>catch\<close> and \<open>finally\<close> are there and come back,
  and \<open>finally\<close> only keeps the closure, as those of a promise do. The runner then stays
  running and the call returns, with no completion observed. In every other case the
  completion step runs inside the call: it is observed right after the call of \<open>fn\<close>.
  When line 67 throws before it has called \<open>finally\<close> (a \<open>TypeError\<close> for a missing
  \<open>catch\<close> or \<open>finally\<close>), the call is the \<open>catch\<close> block on that error, which is raised to
  the caller when nothing is pending. The call comes back when the executions stop
  calling the runner from some execution on.
\<close>

theorem thenable_path:
  assumes "\<not> isRunning w" and "task (executions w) a = Behaviour rs (Returns v)"
    and "rs = [] \<or> 0 < n"
  shows "is_thenable v = spec_thenable v
       \<and> (is_thenable v \<longrightarrow>
            run (Suc n) task a w =
              (case hand_over (run n task) a v
                      (w\<lparr>isRunning := True, hasPending := (hasPending w \<or> rs \<noteq> []),
                         trace := trace w @ [Called a True (hasPending w)]\<rparr>) of
                 None \<Rightarrow> None
               | Some (Raised e, w2) \<Rightarrow> catch_block (run n task) a e w2
               | Some (Returned, w2) \<Rightarrow> Some (Returned, w2)))
       \<and> (then_test v = Inr False \<longrightarrow>
            run (Suc n) task a w =
              complete (run n task) a
                (w\<lparr>isRunning := True, hasPending := (hasPending w \<or> rs \<noteq> []),
                   trace := trace w @ [Called a True (hasPending w)]\<rparr>))
       \<and> (\<forall>e. then_test v = Inl e \<or> is_thenable v \<and> finally_of v = Inl e \<longrightarrow>
            run (Suc n) task a w =
              catch_block (run n task) a e
                (w\<lparr>isRunning := True, hasPending := (hasPending w \<or> rs \<noteq> []),
                   trace := trace w @ [Called a True (hasPending w)]\<rparr>))
       \<and> (\<forall>e. (then_test v = Inl e \<or> is_thenable v \<and> finally_of v = Inl e) \<and>
              \<not> hasPending w \<and> rs = [] \<longrightarrow>
            run (Suc n) task a w =
              Some (Raised e, w\<lparr>isRunning := False,
                                trace := trace w @ [Called a True False, Completed a]\<rparr>))
       \<and> (defers v \<longrightarrow>
            run (Suc n) task a w =
              Some (Returned, w\<lparr>isRunning := True, hasPending := (hasPending w \<or> rs \<noteq> []),
                                handlers := handlers w @ replicate (keeps v) a,
                                trace := trace w @ [Called a True (hasPending w)]\<rparr>))
       \<and> (\<not> defers v \<longrightarrow>
            (\<forall>s w'. run (Suc n) task a w = Some (s, w') \<longrightarrow>
               (\<exists>rest. trace w' = trace w @ Called a True (hasPending w) # Completed a # rest)))
       \<and> (\<forall>K. quiet_from task K \<and> K \<le> executions w + n \<and> \<not> hasPending w \<longrightarrow>
            (\<exists>s w'. run (Suc n) task a w = Some (s, w')))"
proof -
  define w1 where "w1 = w\<lparr>isRunning := True, hasPending := (hasPending w \<or> rs \<noteq> []),
                trace := trace w @ [Called a True (hasPending w)]\<rparr>"
  have b: "Behaviour rs (Returns v) = task (executions w) a" using assms(2) by simp
  have w1: "w1 = w\<lparr>isRunning := True,
      hasPending := (hasPending w \<or> reenter (Behaviour rs (Returns v)) \<noteq> []),
      trace := trace w @ [Called a True (hasPending w)]\<rparr>"
    by (simp add: w1_def)
  note eq = run_idle_eq[where task = task and a = a and n = n, OF assms(1) b w1]
  have eq': "run (Suc n) task a w =
      (case then_test v of
         Inl e \<Rightarrow> catch_block (run n task) a e w1
       | Inr True \<Rightarrow>
           (case hand_over (run n task) a v w1 of
              None \<Rightarrow> None
            | Some (Raised e, w2) \<Rightarrow> catch_block (run n task) a e w2
            | Some (Returned, w2) \<Rightarrow> Some (Returned, w2))
       | Inr False \<Rightarrow> complete (run n task) a w1)"
    using assms(3) unfolding eq by auto
  have line67: "run (Suc n) task a w =
      (case hand_over (run n task) a v w1 of
         None \<Rightarrow> None
       | Some (Raised e, w2) \<Rightarrow> catch_block (run n task) a e w2
       | Some (Returned, w2) \<Rightarrow> Some (Returned, w2))" if "is_thenable v"
    using that unfolding eq' by (simp add: is_thenable_def)
  have plain: "run (Suc n) task a w = complete (run n task) a w1" if "then_test v = Inr False"
    using that unfolding eq' by simp
  have caught: "run (Suc n) task a w = catch_block (run n task) a e w1"
    if "then_test v = Inl e \<or> is_thenable v \<and> finally_of v = Inl e" for e
    using that
  proof
    assume "then_test v = Inl e"
    then show ?thesis unfolding eq' by simp
  next
    assume "is_thenable v \<and> finally_of v = Inl e"
    then show ?thesis unfolding eq' by (simp add: is_thenable_def hand_over_def)
  qed
  have raised: "run (Suc n) task a w =
      Some (Raised e, w\<lparr>isRunning := False, trace := trace w @ [Called a True False, Completed a]\<rparr>)"
    if "(then_test v = Inl e \<or> is_thenable v \<and> finally_of v = Inl e) \<and> \<not> hasPending w \<and> rs = []"
    for e
  proof -
    from that have "\<not> hasPending w1" by (simp add: w1_def)
    from catch_block_quiet[OF this, of "run n task" a e] caught[of e] that
    show ?thesis by (simp add: w1_def)
  qed
  have deferred: "run (Suc n) task a w =
      Some (Returned, w\<lparr>isRunning := True, hasPending := (hasPending w \<or> rs \<noteq> []),
                        handlers := handlers w @ replicate (keeps v) a,
                        trace := trace w @ [Called a True (hasPending w)]\<rparr>)" if "defers v"
  proof -
    from that have "is_thenable v" by (simp add: defers_def)
    from line67[OF this] defers_hand_over[OF that, of "run n task" a w1]
    show ?thesis by (simp add: w1_def)
  qed
  have tr: "\<exists>rest. trace w' = trace w @ Called a True (hasPending w) # Completed a # rest"
    if nd: "\<not> defers v" and r: "run (Suc n) task a w = Some (s, w')" for s w'
  proof -
    have t1: "trace w1 = trace w @ [Called a True (hasPending w)]" by (simp add: w1_def)
    have "\<exists>rest. trace w' = trace w1 @ Completed a # rest"
    proof (cases "then_test v")
      case (Inl e)
      with r caught[of e] obtain s0 where "complete (run n task) a w1 = Some (s0, w')"
        by (auto elim: catch_block_cases)
      from complete_trace[OF this] show ?thesis .
    next
      case (Inr t)
      show ?thesis
      proof (cases t)
        case False
        with Inr r plain have "complete (run n task) a w1 = Some (s, w')" by simp
        from complete_trace[OF this] show ?thesis .
      next
        case True
        with Inr have th: "is_thenable v" by (simp add: is_thenable_def)
        from r line67[OF th] obtain s1 w2 where h: "hand_over (run n task) a v w1 = Some (s1, w2)"
          by (auto split: option.splits)
        from hand_over_trace[OF h th] nd
        have alt: "(\<exists>e. s1 = Raised e) \<and> trace w2 = trace w1
                 \<or> (\<exists>rest. trace w2 = trace w1 @ Completed a # rest)" by blast
        show ?thesis
        proof (cases s1)
          case Returned
          with r line67[OF th] h have "w' = w2" by simp
          with alt Returned show ?thesis by auto
        next
          case (Raised e)
          with r line67[OF th] h have "catch_block (run n task) a e w2 = Some (s, w')" by simp
          then obtain s0 where "complete (run n task) a w2 = Some (s0, w')"
            by (rule catch_block_cases)
          from complete_trace[OF this] obtain rest2 where
            "trace w' = trace w2 @ Completed a # rest2" by blast
          with alt show ?thesis by auto
        qed
      qed
    qed
    with t1 show ?thesis by auto
  qed
  have quiet: "\<exists>s w'. run (Suc n) task a w = Some (s, w')"
    if "quiet_from task K \<and> K \<le> executions w + n \<and> \<not> hasPending w" for K
    using run_comes_back[of task K w n a] that by blast
  from thenable_refines[of v] line67 plain caught raised deferred tr quiet
  show ?thesis unfolding w1_def by blast
qed

theorem thenable_path_witness:
  "\<not> isRunning (init :: nat list world) \<and>
   async_task (executions (init :: nat list world)) [1] = Behaviour [] (Returns a_promise) \<and>
   spec_thenable a_promise \<and> defers a_promise \<and> keeps a_promise = 1 \<and>
   run (Suc 0) async_task [1] init =
     Some (Returned, \<lparr>isRunning = True, hasPending = False, handlers = [[1]],
                      trace = [Called [1] True False]\<rparr>) \<and>
   plain_task (executions (init :: nat list world)) [1] = Behaviour [] (Returns JUndefined) \<and>
   \<not> spec_thenable JUndefined \<and>
   run (Suc 0) plain_task [1] init =
     Some (Returned, \<lparr>isRunning = False, hasPending = False, handlers = [],
                      trace = [Called [1] True False, Completed [1]]\<rparr>)"
  using thenable_path[of init async_task "[1]" "[]" a_promise 0]
        thenable_path[of init plain_task "[1]" "[]" JUndefined 0]
  by (simp add: init_def async_task_def plain_task_def complete_def promise_facts plain_facts(1,3))

section \<open>Settlement and rejection\<close>





section \<open>Synchronous faults\<close>

text \<open>
  Claim C4, as stated, fails for a task that calls the runner from inside before it
  throws: the follow-up call is made by \<open>complete\<close> in the \<open>catch\<close> block (line 71), and when
  that call raises, its error reaches the caller and line 72 is never reached.
\<close>

theorem sync_fault_recovery_counterexample:
  "outcome (rethrowing_task (executions (init :: nat list world)) [1]) = Throws (JString ''first'') \<and>
   map_option fst (run 2 rethrowing_task [1] init) = Some (Raised (JString ''second''))"
  by (simp add: init_def rethrowing_task_def run_idle complete_def catch_block_def numeral_2_eq_2
        executions_def called_def)

text \<open>
  Claim C4, amended. For every task that throws synchronously, without having called the
  runner from inside, when it is invoked from the idle state (\<open>isRunning\<close> and \<open>hasPending\<close>
  false): the call raises that same error, the runner is idle again with \<open>isRunning\<close> and
  \<open>hasPending\<close> false, the completion step has run, and a later call of the runner calls
  \<open>fn\<close> again and comes back.
\<close>

theorem sync_fault_recovery:
  assumes "\<not> isRunning w" and "\<not> hasPending w"
    and "task (executions w) a = Behaviour [] (Throws e)"
  shows "run (Suc n) task a w =
           Some (Raised e, w\<lparr>isRunning := False, hasPending := False,
                             trace := trace w @ [Called a True False, Completed a]\<rparr>)
       \<and> (\<forall>b. reenter (task (Suc (executions w)) b) = [] \<longrightarrow>
            (\<exists>s w' rest.
               run (Suc m) task b
                 (w\<lparr>isRunning := False, hasPending := False,
                    trace := trace w @ [Called a True False, Completed a]\<rparr>) = Some (s, w') \<and>
               trace w' = trace w @ Called a True False # Completed a # Called b True False # rest))"
proof -
  let ?w' = "w\<lparr>isRunning := False, hasPending := False,
                trace := trace w @ [Called a True False, Completed a]\<rparr>"
  have first: "run (Suc n) task a w = Some (Raised e, ?w')"
    using assms by (simp add: run_idle complete_def catch_block_def Let_def)
  have "\<exists>s w' rest. run (Suc m) task b ?w' = Some (s, w') \<and>
          trace w' = trace w @ Called a True False # Completed a # Called b True False # rest"
    if "reenter (task (Suc (executions w)) b) = []" for b
  proof -
    have "reenter (task (executions ?w') b) = []"
      using that by (simp add: executions_def called_def)
    from run_quiet[of ?w' task b m, OF _ _ this]
    show ?thesis by auto
  qed
  with first show ?thesis by blast
qed

theorem sync_fault_recovery_witness:
  "\<not> isRunning (init :: nat list world) \<and> \<not> hasPending (init :: nat list world) \<and>
   throwing_task (executions (init :: nat list world)) [1] = Behaviour [] (Throws (JString ''boom'')) \<and>
   run (Suc 0) throwing_task [1] init =
     Some (Raised (JString ''boom''), \<lparr>isRunning = False, hasPending = False, handlers = [],
                             trace = [Called [1] True False, Completed [1]]\<rparr>) \<and>
   run (Suc 0) throwing_task [2]
       \<lparr>isRunning = False, hasPending = False, handlers = [],
        trace = [Called [1] True False, Completed [1]]\<rparr> =
     Some (Raised (JString ''boom''), \<lparr>isRunning = False, hasPending = False, handlers = [],
        trace = [Called [1] True False, Completed [1], Called [2] True False, Completed [2]]\<rparr>)"
  using sync_fault_recovery[of init throwing_task "[1]" "JString ''boom''" 0 0]
  by (simp add: init_def throwing_task_def run_idle complete_def catch_block_def)

text \<open>
  Claim C10, as stated, fails when the follow-up execution returns a promise: the error
  reaches the original caller while the follow-up execution is still in flight
  (\<open>isRunning\<close> is true and its completion has not been observed).
\<close>

theorem sync_fault_followup_counterexample:
  "outcome (throw_then_async_task (executions (init :: nat list world)) [1]) = Throws (JString ''boom'') \<and>
   reenter (throw_then_async_task (executions (init :: nat list world)) [1]) = [[9]] \<and>
   run 2 throw_then_async_task [1] init =
     Some (Raised (JString ''boom''),
           \<lparr>isRunning = True, hasPending = False, handlers = [[1]],
            trace = [Called [1] True False, Completed [1], Called [1] True False]\<rparr>)"
  by (simp add: init_def throw_then_async_task_def run_idle complete_def catch_block_def numeral_2_eq_2
        executions_def called_def promise_facts)

text \<open>
  Claim C10, amended. When the task throws synchronously, the completion step runs before
  an error is raised to the caller: \<open>isRunning\<close> is reset first. With no inner call the
  original error is raised from the idle state. If an inner call of the runner had set
  \<open>hasPending\<close>, the follow-up call of the runner is made from the idle state and has come
  back before an error reaches the original caller: \<open>fn\<close> has been called a second time with
  the same arguments by then; the caller gets the original error when the follow-up call
  returned, and the error of the follow-up call when that call raised. A follow-up
  execution whose completion line 67 has deferred (it has returned a value of which
  \<open>catch\<close> and \<open>finally\<close> come back and \<open>finally\<close> only keeps the closure, as a promise
  does) is still in flight when the original error is raised. The call comes back when
  the executions stop calling the runner from some execution on.
\<close>

theorem sync_fault_completes_first:
  assumes "\<not> isRunning w" and "\<not> hasPending w"
    and "task (executions w) a = Behaviour rs (Throws e)"
  shows "(rs = [] \<longrightarrow>
            run (Suc n) task a w =
              Some (Raised e, w\<lparr>isRunning := False, hasPending := False,
                                trace := trace w @ [Called a True False, Completed a]\<rparr>))
       \<and> (rs \<noteq> [] \<longrightarrow>
            run (Suc (Suc n)) task a w =
              (case run (Suc n) task a
                      (w\<lparr>isRunning := False, hasPending := False,
                         trace := trace w @ [Called a True False, Completed a]\<rparr>) of
                 None \<Rightarrow> None
               | Some (Raised e', w') \<Rightarrow> Some (Raised e', w')
               | Some (Returned, w') \<Rightarrow> Some (Raised e, w'))
          \<and> (\<forall>s w'. run (Suc (Suc n)) task a w = Some (s, w') \<longrightarrow>
                (\<exists>rest. trace w' =
                   trace w @ Called a True False # Completed a # Called a True False # rest))
          \<and> (\<forall>v. task (Suc (executions w)) a = Behaviour [] (Returns v) \<and> defers v \<longrightarrow>
                run (Suc (Suc n)) task a w =
                  Some (Raised e, w\<lparr>isRunning := True, hasPending := False,
                                    handlers := handlers w @ replicate (keeps v) a,
                                    trace := trace w @ [Called a True False, Completed a,
                                                        Called a True False]\<rparr>))
          \<and> (\<forall>K. quiet_from task K \<and> K \<le> executions w + Suc n \<longrightarrow>
                (\<exists>s w'. run (Suc (Suc n)) task a w = Some (s, w'))))"
proof -
  let ?mid = "w\<lparr>isRunning := False, hasPending := False,
                 trace := trace w @ [Called a True False, Completed a]\<rparr>"
  have none: "run (Suc n) task a w = Some (Raised e, ?mid)" if "rs = []"
    using assms that by (simp add: run_idle complete_def catch_block_def Let_def)
  have some: "run (Suc (Suc n)) task a w =
      (case run (Suc n) task a ?mid of
         None \<Rightarrow> None
       | Some (Raised e', w') \<Rightarrow> Some (Raised e', w')
       | Some (Returned, w') \<Rightarrow> Some (Raised e, w'))" if "rs \<noteq> []"
    using assms that
    by (simp add: run_idle complete_def catch_block_def Let_def split: option.splits)
  have tr: "\<exists>rest. trace w' =
      trace w @ Called a True False # Completed a # Called a True False # rest"
    if "rs \<noteq> []" and r: "run (Suc (Suc n)) task a w = Some (s, w')" for s w'
  proof -
    from r some[OF that(1)] obtain s0 where "run (Suc n) task a ?mid = Some (s0, w')"
      by (auto split: option.splits signal.splits)
    from run_idle_trace[OF _ this] show ?thesis by auto
  qed
  have flight: "run (Suc (Suc n)) task a w =
      Some (Raised e, w\<lparr>isRunning := True, hasPending := False,
                        handlers := handlers w @ replicate (keeps v) a,
                        trace := trace w @ [Called a True False, Completed a,
                                            Called a True False]\<rparr>)"
    if "rs \<noteq> []" and "task (Suc (executions w)) a = Behaviour [] (Returns v)"
      and "defers v" for v
  proof -
    from that(3) have "then_test v = Inr True" by (simp add: defers_def is_thenable_def)
    with that show ?thesis
      by (simp add: some run_idle Let_def executions_def called_def defers_hand_over)
  qed
  have later: "\<exists>s w'. run (Suc (Suc n)) task a w = Some (s, w')"
    if "quiet_from task K \<and> K \<le> executions w + Suc n" for K
    using run_comes_back[of task K w "Suc n" a] that assms(2) by blast
  from none some tr flight later show ?thesis by blast
qed

theorem sync_fault_completes_first_witness:
  "\<not> isRunning (init :: nat list world) \<and> \<not> hasPending (init :: nat list world) \<and>
   rethrowing_task (executions (init :: nat list world)) [1] = Behaviour [[9]] (Throws (JString ''first'')) \<and>
   [[9::nat]] \<noteq> [] \<and>
   run (Suc (Suc 0)) rethrowing_task [1] init =
     Some (Raised (JString ''second''),
           \<lparr>isRunning = False, hasPending = False, handlers = [],
            trace = [Called [1] True False, Completed [1],
                     Called [1] True False, Completed [1]]\<rparr>)"
  using sync_fault_completes_first[of init rethrowing_task "[1]" "[[9]]" "JString ''first''" 0]
  by (simp add: init_def rethrowing_task_def run_idle complete_def catch_block_def executions_def called_def)

section \<open>The arguments of a follow-up execution\<close>

lemma drive_Invoke:
  "drive n task (Invoke a # evs) w =
     (case run n task a w of None \<Rightarrow> None | Some (s, w') \<Rightarrow> drive n task evs w')"
  by (simp split: option.splits prod.splits)

text \<open>
  Claim C1, as stated, fails: the source has no variable for a last argument list, and a
  call that arrives during an execution records nothing but \<open>hasPending\<close>. After the calls
  with \<open>[1]\<close> and \<open>[2]\<close>, the follow-up execution is run with \<open>[1]\<close>, not with \<open>[2]\<close>.
\<close>

theorem last_args_counterexample:
  "map_option called
     (drive 2 async_task [Invoke [1], Invoke [2], Settle 0 (Fulfilled JUndefined)] init)
   = Some [[1], [1]]"
  by (simp add: init_def async_task_def run_idle run_running settle_unfold complete_def catch_block_def
        numeral_2_eq_2 promise_facts called_def)

text \<open>
  Claim C1, amended. No argument list is recorded by a call that arrives during an
  execution: such a call only sets \<open>hasPending\<close>. The follow-up execution started by the
  completion step runs the task with the argument list \<open>a\<close> that the closure \<open>complete\<close>
  has captured, the one of the call that started the execution, whatever the argument
  lists of the calls that arrived during the execution. Every execution made inside the
  call with \<open>a\<close> is run with \<open>a\<close>. When the execution is completed inside the call (\<open>fn\<close>
  throws, or returns a value that does not pass the test of lines 61 to 66) after inner
  calls with the argument lists \<open>rs\<close>, the follow-up execution is run with \<open>a\<close> inside the
  call. When the call leaves the runner running, calls with the argument lists \<open>bs\<close> come
  back at once with the state they would leave with any other arguments, and the later
  call of a closure that this call has handed over runs the completion step and then the
  follow-up execution with \<open>a\<close>; these events come back when the executions stop calling
  the runner from some execution on.
\<close>

theorem followup_replays_captured_args:
  assumes "\<not> isRunning w" and "run (Suc n) task a w = Some (s, w1)"
  shows "(\<exists>k. called w1 = called w @ replicate (Suc k) a)
       \<and> (\<forall>rs out. task (executions w) a = Behaviour rs out \<and> rs \<noteq> [] \<and>
              (\<forall>v. out = Returns v \<longrightarrow> \<not> is_thenable v) \<longrightarrow>
            (\<exists>rest. trace w1 =
               trace w @ Called a True (hasPending w) # Completed a # Called a True False # rest))
       \<and> (isRunning w1 \<longrightarrow>
            (\<forall>b. run (Suc n) task b w1 = Some (Returned, w1\<lparr>hasPending := True\<rparr>)))
       \<and> (\<forall>bs i st. isRunning w1 \<and> bs \<noteq> [] \<and> length (handlers w) \<le> i \<and>
              i < length (handlers w1) \<longrightarrow>
            (\<forall>w'. drive (Suc n) task (Invoke a # map Invoke bs @ [Settle i st]) w = Some w' \<longrightarrow>
               (\<exists>rest. trace w' = trace w1 @ Completed a # Called a True False # rest)) \<and>
            (\<forall>K. quiet_from task K \<and> K \<le> executions w1 + n \<longrightarrow>
               (\<exists>w'. drive (Suc n) task (Invoke a # map Invoke bs @ [Settle i st]) w = Some w')))"
proof -
  from run_same_args[OF assms(2)] obtain k1 j where
    k1: "called w1 = called w @ replicate k1 a" and j: "handlers w1 = handlers w @ replicate j a"
    by blast
  from run_idle_trace[OF assms] obtain rest where
    t1: "trace w1 = trace w @ Called a True (hasPending w) # rest" by blast
  then have "called w1 = called w @ a # called_of rest" by (simp add: called_def)
  with k1 obtain k where "k1 = Suc k" by (cases k1) auto
  with k1 have all: "\<exists>k. called w1 = called w @ replicate (Suc k) a" by blast
  have inner: "\<exists>rest. trace w1 =
      trace w @ Called a True (hasPending w) # Completed a # Called a True False # rest"
    if t: "task (executions w) a = Behaviour rs out \<and> rs \<noteq> [] \<and>
           (\<forall>v. out = Returns v \<longrightarrow> \<not> is_thenable v)" for rs out
  proof -
    let ?w0 = "w\<lparr>isRunning := True,
         hasPending := (hasPending w \<or> reenter (task (executions w) a) \<noteq> []),
         trace := trace w @ [Called a True (hasPending w)]\<rparr>"
    from t have p: "hasPending ?w0" by simp
    have "\<exists>s0. complete (run n task) a ?w0 = Some (s0, w1)"
      using assms
    proof (cases rule: run_idle_cases)
      case (ended e s0)
      then show ?thesis by blast
    next
      case (plain v)
      then show ?thesis by blast
    next
      case (handed v)
      with t show ?thesis by (simp add: is_thenable_def)
    next
      case (refused v e w2 s0)
      with t show ?thesis by (simp add: is_thenable_def)
    qed
    then obtain s0 where "complete (run n task) a ?w0 = Some (s0, w1)" by blast
    from complete_pending_trace[OF this p] show ?thesis by auto
  qed
  have coalesced: "run (Suc n) task b w1 = Some (Returned, w1\<lparr>hasPending := True\<rparr>)"
    if "isRunning w1" for b
    using that by (rule run_running)
  have later:
    "(\<forall>w'. drive (Suc n) task (Invoke a # map Invoke bs @ [Settle i st]) w = Some w' \<longrightarrow>
        (\<exists>rest. trace w' = trace w1 @ Completed a # Called a True False # rest)) \<and>
     (\<forall>K. quiet_from task K \<and> K \<le> executions w1 + n \<longrightarrow>
        (\<exists>w'. drive (Suc n) task (Invoke a # map Invoke bs @ [Settle i st]) w = Some w'))"
    if h: "isRunning w1 \<and> bs \<noteq> [] \<and> length (handlers w) \<le> i \<and> i < length (handlers w1)"
    for bs i st
  proof -
    let ?w2 = "w1\<lparr>hasPending := True\<rparr>"
    let ?w3 = "?w2\<lparr>handlers := take i (handlers ?w2) @ drop (Suc i) (handlers ?w2)\<rparr>"
    from h j have a: "handlers ?w2 ! i = a" by (auto simp: nth_append)
    from h have d: "drive (Suc n) task (Invoke a # map Invoke bs @ [Settle i st]) w =
        map_option snd (settle (Suc n) task i st ?w2)"
      using assms(2) by (simp add: drive_Invoke drive_append drive_coalesced split: option.splits)
    have one: "\<exists>rest. trace w' = trace w1 @ Completed a # Called a True False # rest"
      if "drive (Suc n) task (Invoke a # map Invoke bs @ [Settle i st]) w = Some w'" for w'
    proof -
      from that have "map_option snd (settle (Suc n) task i st ?w2) = Some w'"
        unfolding d .
      then obtain s' where "settle (Suc n) task i st ?w2 = Some (s', w')" by auto
      then obtain s0 where c: "complete (run (Suc n) task) a ?w3 = Some (s0, w')"
        using a by (auto simp: settle_unfold split: option.splits signal.splits)
      have "hasPending ?w3" by simp
      from complete_pending_trace[OF c this] show ?thesis by simp
    qed
    have two: "\<exists>w'. drive (Suc n) task (Invoke a # map Invoke bs @ [Settle i st]) w = Some w'"
      if "quiet_from task K \<and> K \<le> executions w1 + n" for K
    proof -
      from that have "quiet_from task K" "K \<le> executions ?w2 + n" by simp_all
      from settle_comes_back[OF this, of i st] show ?thesis unfolding d by auto
    qed
    from one two show ?thesis by blast
  qed
  from all inner coalesced later show ?thesis by blast
qed

theorem followup_replays_captured_args_witness:
  "\<not> isRunning (init :: nat list world) \<and>
   run (Suc 1) async_task [1] init = Some (Returned, in_flight) \<and>
   isRunning in_flight \<and> [[2::nat]] \<noteq> [] \<and>
   length (handlers (init :: nat list world)) \<le> 0 \<and> (0::nat) < length (handlers in_flight) \<and>
   quiet_from async_task 0 \<and>
   drive (Suc 1) async_task (Invoke [1] # map Invoke [[2]] @ [Settle 0 (Rejected JNull)]) init =
     Some \<lparr>isRunning = True, hasPending = False, handlers = [[1]],
           trace = [Called [1] True False, Completed [1], Called [1] True False]\<rparr> \<and>
   reentering_task (executions (init :: nat list world)) [1] = Behaviour [[9]] (Returns JUndefined) \<and>
   \<not> is_thenable JUndefined \<and>
   run (Suc 1) reentering_task [1] init =
     Some (Returned,
           \<lparr>isRunning = False, hasPending = False, handlers = [],
            trace = [Called [1] True False, Completed [1], Called [1] True False, Completed [1]]\<rparr>)"
  using followup_replays_captured_args[of init 1 async_task "[1]" Returned in_flight]
        followup_replays_captured_args[of init 1 reentering_task "[1]" Returned
          "\<lparr>isRunning = False, hasPending = False, handlers = [],
            trace = [Called [1] True False, Completed [1], Called [1] True False, Completed [1]]\<rparr>"]
  by (simp add: init_def in_flight_def async_task_def reentering_task_def quiet_from_def
        run_idle run_running settle_unfold complete_def catch_block_def promise_facts plain_facts(1)
        is_thenable_def executions_def called_def)

section \<open>The invariant of the two flags\<close>

lemma consistent_init: "consistent init"
  by (simp add: consistent_def init_def)

lemma step_consistent:
  assumes "consistent w" and "step n task ev w = Some w'"
  shows "consistent w'"
proof -
  from step_evolves[OF assms(2)] obtain a w0 where e: "evolves a w0 w'"
    and "isRunning w0 = isRunning w" "hasPending w0 = hasPending w" "trace w0 = trace w"
    by blast
  with assms(1) have "consistent w0" by (simp add: consistent_def)
  with e show ?thesis by (rule evolves_consistent)
qed

lemma drive_consistent:
  "consistent w \<Longrightarrow> drive n task evs w = Some w' \<Longrightarrow> consistent w'"
proof (induction evs arbitrary: w)
  case Nil
  then show ?case by simp
next
  case (Cons ev evs)
  from Cons.prems(2) obtain w1 where s: "step n task ev w = Some w1"
    and d: "drive n task evs w1 = Some w'"
    by (auto split: option.splits)
  from Cons.IH[OF step_consistent[OF Cons.prems(1) s] d] show ?case .
qed
text \<open>
  Claim C6. At every point where control is outside the runner (after any sequence of calls
  and settlements, starting from the initial state), \<open>hasPending\<close> is true only if
  \<open>isRunning\<close> is true; the state with \<open>hasPending\<close> true and \<open>isRunning\<close> false exists only
  inside \<open>complete\<close>, between lines 52 and 54. And \<open>hasPending\<close> is cleared before the
  follow-up execution begins: at every call of \<open>fn\<close> that has been made, \<open>isRunning\<close> was
  true and \<open>hasPending\<close> was false.
\<close>

theorem pending_only_while_running:
  assumes "drive n task evs init = Some w"
  shows "(hasPending w \<longrightarrow> isRunning w)
       \<and> (\<forall>a r p. Called a r p \<in> set (trace w) \<longrightarrow> r \<and> \<not> p)"
proof -
  from drive_consistent[OF consistent_init assms] have st: "consistent w" .
  then have "hasPending w \<longrightarrow> isRunning w" by (simp add: consistent_def)
  moreover have "r \<and> \<not> p" if "Called a r p \<in> set (trace w)" for a r p
  proof -
    from st have "list_all good_obs (trace w)" by (simp add: consistent_def)
    with that have "good_obs (Called a r p)" by (auto simp: list_all_iff)
    then show ?thesis by simp
  qed
  ultimately show ?thesis by blast
qed

theorem pending_only_while_running_witness:
  "drive 2 async_task [Invoke [1], Invoke [2]] init =
     Some \<lparr>isRunning = True, hasPending = True, handlers = [[1]],
           trace = [Called [1] True False]\<rparr> \<and>
   hasPending \<lparr>isRunning = True, hasPending = True, handlers = [[1::nat]],
               trace = [Called [1] True False]\<rparr> \<and>
   isRunning \<lparr>isRunning = True, hasPending = True, handlers = [[1::nat]],
              trace = [Called [1] True False]\<rparr> \<and>
   drive 2 async_task [Invoke [1], Invoke [2], Settle 0 (Rejected (JString ''x''))] init =
     Some \<lparr>isRunning = True, hasPending = False, handlers = [[1]],
           trace = [Called [1] True False, Completed [1], Called [1] True False]\<rparr> \<and>
   Called [1::nat] True False \<in> set
     (trace \<lparr>isRunning = True, hasPending = False, handlers = [[1::nat]],
             trace = [Called [1] True False, Completed [1], Called [1] True False]\<rparr>)"
  using pending_only_while_running[of 2 async_task "[Invoke [1], Invoke [2]]"
          "\<lparr>isRunning = True, hasPending = True, handlers = [[1]],
            trace = [Called [1] True False]\<rparr>"]
        pending_only_while_running[of 2 async_task
          "[Invoke [1], Invoke [2], Settle 0 (Rejected (JString ''x''))]"
          "\<lparr>isRunning = True, hasPending = False, handlers = [[1]],
            trace = [Called [1] True False, Completed [1], Called [1] True False]\<rparr>"]
  by (simp add: init_def async_task_def run_idle run_running settle_unfold complete_def
        catch_block_def numeral_2_eq_2 promise_facts
        )


section \<open>The arguments along a chain of executions\<close>





section \<open>Single flight\<close>













end
